theory Spec2Isabelle
  imports Main "HOL-Library.Word"
begin

unbundle bit_operations_syntax

section \<open>Memory, pointers and C integers\<close>

text \<open>
  The functions of \<^verbatim>\<open>h265.c\<close> work on a caller-owned byte buffer through raw
  pointers. A pointer is its address (an \<open>int\<close>, so that \<^verbatim>\<open>end - 3\<close> below the start
  of a short buffer is still a number, as it is on the machine); the buffer is a list of
  bytes placed at the address \<open>base\<close>. The address of the buffer matters: the scanner
  aligns its pointer to a multiple of 4 before it loads whole words. The byte order of the
  machine is a field of the memory, so that every result below holds for both orders.

  Every read is checked: a read outside \<open>[base, mem_end)\<close> is the fault \<open>OutOfBounds\<close>,
  and a 32-bit load from an address that is not a multiple of 4 is the fault
  \<open>Misaligned\<close>. A fault ends the computation (\<open>Inl\<close>).

  \<^verbatim>\<open>size_t\<close> and \<^verbatim>\<open>uint64_t\<close> are 64-bit words, \<^verbatim>\<open>int\<close> and \<^verbatim>\<open>uint32_t\<close> are 32-bit
  words, \<^verbatim>\<open>uint8_t\<close> is an 8-bit word: their arithmetic wraps around.
\<close>

type_synonym byte = "8 word"
type_synonym ptr = int
type_synonym size_t = "64 word"
type_synonym c_int = "32 word"

datatype fault = OutOfBounds | Misaligned

record mem =
  base :: ptr
  bytes :: "byte list"
  big_endian :: bool

definition mem_end :: "mem \<Rightarrow> ptr" where
  "mem_end m = base m + int (length (bytes m))"

definition in_bounds :: "mem \<Rightarrow> ptr \<Rightarrow> bool" where
  "in_bounds m p = (base m \<le> p \<and> p < mem_end m)"

definition peek :: "mem \<Rightarrow> ptr \<Rightarrow> byte" where
  "peek m p = bytes m ! nat (p - base m)"

definition rd :: "mem \<Rightarrow> ptr \<Rightarrow> fault + byte" where
  "rd m p = (if in_bounds m p then Inr (peek m p) else Inl OutOfBounds)"

definition word32_of :: "byte \<Rightarrow> byte \<Rightarrow> byte \<Rightarrow> byte \<Rightarrow> 32 word" where
  "word32_of b0 b1 b2 b3 =
     word_of_int (uint b0 + 256 * uint b1 + 65536 * uint b2 + 16777216 * uint b3)"

text \<open>\<^verbatim>\<open>*(const uint32_t*)(void *)p\<close>: the four bytes at \<open>p\<close>, in the machine's order.\<close>

definition rd32 :: "mem \<Rightarrow> ptr \<Rightarrow> fault + 32 word" where
  "rd32 m p =
     (if p AND 3 \<noteq> 0 then Inl Misaligned
      else if in_bounds m p \<and> in_bounds m (p + 3) then
        Inr (if big_endian m
             then word32_of (peek m (p + 3)) (peek m (p + 2)) (peek m (p + 1)) (peek m p)
             else word32_of (peek m p) (peek m (p + 1)) (peek m (p + 2)) (peek m (p + 3)))
      else Inl OutOfBounds)"

text \<open>Sequencing of computations that may fault, and C's short-circuit \<^verbatim>\<open>&&\<close>.\<close>

definition sbind :: "fault + 'a \<Rightarrow> ('a \<Rightarrow> fault + 'b) \<Rightarrow> fault + 'b" where
  "sbind x f = (case x of Inl e \<Rightarrow> Inl e | Inr v \<Rightarrow> f v)"

definition andalso :: "fault + bool \<Rightarrow> fault + bool \<Rightarrow> fault + bool" where
  "andalso a b = (case a of Inl e \<Rightarrow> Inl e | Inr c \<Rightarrow> if c then b else Inr False)"

text \<open>\<^verbatim>\<open>p[0] == v\<close>\<close>

definition byte_is :: "mem \<Rightarrow> ptr \<Rightarrow> byte \<Rightarrow> fault + bool" where
  "byte_is m p v = (case rd m p of Inl e \<Rightarrow> Inl e | Inr b \<Rightarrow> Inr (b = v))"

section \<open>The start-code scanner\<close>

text \<open>\<^verbatim>\<open>p[0] == 0 && p[1] == 0 && p[2] == 1\<close>\<close>

definition match3 :: "mem \<Rightarrow> ptr \<Rightarrow> fault + bool" where
  "match3 m p = andalso (byte_is m p 0) (andalso (byte_is m (p + 1) 0) (byte_is m (p + 2) 1))"

text \<open>
  The result of one of the three loops of \<^verbatim>\<open>h265_find_startcode\<close>: the function
  returns the position \<open>q\<close> (\<open>Found q\<close>), or the loop ends with the pointer at \<open>p\<close>
  (\<open>Upto p\<close>) and the next loop goes on from there.
\<close>

datatype scan = Found ptr | Upto ptr

text \<open>
  \<^verbatim>\<open>for (end -= 3; p < a && p < end; p++) if (p[0] == 0 && p[1] == 0 && p[2] == 1) return p;\<close>
\<close>

function find_head :: "mem \<Rightarrow> ptr \<Rightarrow> ptr \<Rightarrow> ptr \<Rightarrow> fault + scan" where
  "find_head m a e p =
     (if p < a \<and> p < e then
        (case match3 m p of
           Inl f \<Rightarrow> Inl f
         | Inr hit \<Rightarrow> if hit then Inr (Found p) else find_head m a e (p + 1))
      else Inr (Upto p))"
  by pat_completeness auto
termination
  by (relation "measure (\<lambda>(m, a, e, p). nat (e - p))") auto

declare find_head.simps [simp del]

text \<open>The word test \<^verbatim>\<open>(x - 0x01010101) & (~x) & 0x80808080\<close>.\<close>

definition haszero :: "32 word \<Rightarrow> bool" where
  "haszero x = ((x - 0x01010101) AND NOT x AND 0x80808080 \<noteq> 0)"

text \<open>
  The body of the word loop at \<open>p\<close>: \<open>Some q\<close> when it returns \<open>q\<close>, \<open>None\<close> when
  the loop goes on with \<open>p + 4\<close>. The bytes are read in the order of the source, and
  only those that the source reads.
\<close>

definition probe_hi :: "mem \<Rightarrow> ptr \<Rightarrow> fault + ptr option" where
  "probe_hi m p =
     sbind (byte_is m (p + 3) 0) (\<lambda>z3.
       if z3 then
         sbind (andalso (byte_is m (p + 2) 0) (byte_is m (p + 4) 1)) (\<lambda>h2.
           if h2 then Inr (Some (p + 2))
           else sbind (andalso (byte_is m (p + 4) 0) (byte_is m (p + 5) 1)) (\<lambda>h3.
             if h3 then Inr (Some (p + 3)) else Inr None))
       else Inr None)"

definition probe_word :: "mem \<Rightarrow> ptr \<Rightarrow> fault + ptr option" where
  "probe_word m p =
     sbind (rd32 m p) (\<lambda>x.
       if haszero x then
         sbind (byte_is m (p + 1) 0) (\<lambda>z1.
           if z1 then
             sbind (andalso (byte_is m p 0) (byte_is m (p + 2) 1)) (\<lambda>h0.
               if h0 then Inr (Some p)
               else sbind (andalso (byte_is m (p + 2) 0) (byte_is m (p + 3) 1)) (\<lambda>h1.
                 if h1 then Inr (Some (p + 1)) else probe_hi m p))
           else probe_hi m p)
       else Inr None)"

text \<open>\<^verbatim>\<open>for (end -= 3; p < end; p += 4) { ... }\<close>\<close>

function find_words :: "mem \<Rightarrow> ptr \<Rightarrow> ptr \<Rightarrow> fault + scan" where
  "find_words m e p =
     (if p < e then
        (case probe_word m p of
           Inl f \<Rightarrow> Inl f
         | Inr (Some q) \<Rightarrow> Inr (Found q)
         | Inr None \<Rightarrow> find_words m e (p + 4))
      else Inr (Upto p))"
  by pat_completeness auto
termination
  by (relation "measure (\<lambda>(m, e, p). nat (e - p))") auto

declare find_words.simps [simp del]

text \<open>
  \<^verbatim>\<open>for (end += 3; p < end; p++) if (p[0] == 0 && p[1] == 0 && p[2] == 1) return p;\<close>
\<close>

function find_tail :: "mem \<Rightarrow> ptr \<Rightarrow> ptr \<Rightarrow> fault + scan" where
  "find_tail m e p =
     (if p < e then
        (case match3 m p of
           Inl f \<Rightarrow> Inl f
         | Inr hit \<Rightarrow> if hit then Inr (Found p) else find_tail m e (p + 1))
      else Inr (Upto p))"
  by pat_completeness auto
termination
  by (relation "measure (\<lambda>(m, e, p). nat (e - p))") auto

declare find_tail.simps [simp del]

text \<open>
  \<^verbatim>\<open>const uint8_t *h265_find_startcode(const uint8_t *p, const uint8_t *end)\<close>.
  \<open>e1\<close>, \<open>e2\<close> and \<open>e3\<close> are the values of the variable \<^verbatim>\<open>end\<close> in the three loops.
\<close>

definition h265_find_startcode :: "mem \<Rightarrow> ptr \<Rightarrow> ptr \<Rightarrow> fault + ptr" where
  "h265_find_startcode m p end0 =
     (let a = p + 4 - (p AND 3);
          e1 = end0 - 3
      in sbind (find_head m a e1 p) (\<lambda>s1.
           case s1 of
             Found q \<Rightarrow> Inr q
           | Upto p1 \<Rightarrow>
               (let e2 = e1 - 3
                in sbind (find_words m e2 p1) (\<lambda>s2.
                     case s2 of
                       Found q \<Rightarrow> Inr q
                     | Upto p2 \<Rightarrow>
                         (let e3 = e2 + 3
                          in sbind (find_tail m e3 p2) (\<lambda>s3.
                               case s3 of
                                 Found q \<Rightarrow> Inr q
                               | Upto p3 \<Rightarrow> Inr (e3 + 3)))))))"

text \<open>
  What the scanner looks for, said on the buffer itself: the three bytes \<open>00 00 01\<close>
  lie at \<open>q\<close>, all three inside the buffer.
\<close>

definition sc_at :: "mem \<Rightarrow> ptr \<Rightarrow> bool" where
  "sc_at m q =
     (base m \<le> q \<and> q + 2 < mem_end m \<and>
      peek m q = 0 \<and> peek m (q + 1) = 0 \<and> peek m (q + 2) = 1)"

text \<open>No start code begins in \<open>[lo, hi)\<close>.\<close>

definition no_sc :: "mem \<Rightarrow> ptr \<Rightarrow> ptr \<Rightarrow> bool" where
  "no_sc m lo hi = (\<forall>q \<in> {lo ..< hi}. \<not> sc_at m q)"

section \<open>Start-code prefixes\<close>

text \<open>\<^verbatim>\<open>static const uint8_t sc3[3] = {0, 0, 1}; static const uint8_t sc4[4] = {0, 0, 0, 1};\<close>\<close>

definition sc3 :: "byte list" where
  "sc3 = [0, 0, 1]"

definition sc4 :: "byte list" where
  "sc4 = [0, 0, 0, 1]"

text \<open>The \<open>n\<close> bytes at \<open>p\<close> (fewer where the buffer ends before).\<close>

definition mem_slice :: "mem \<Rightarrow> ptr \<Rightarrow> nat \<Rightarrow> byte list" where
  "mem_slice m p n = take n (drop (nat (p - base m)) (bytes m))"

text \<open>
  \<^verbatim>\<open>0 == memcmp(p, pat, sizeof pat)\<close>. \<^verbatim>\<open>memcmp\<close> may read all the bytes it is given,
  so all of them must lie in the buffer.
\<close>

definition memcmp0 :: "mem \<Rightarrow> ptr \<Rightarrow> byte list \<Rightarrow> fault + bool" where
  "memcmp0 m p pat =
     (if base m \<le> p \<and> p + int (length pat) \<le> mem_end m
      then Inr (mem_slice m p (length pat) = pat)
      else Inl OutOfBounds)"

text \<open>
  \<^verbatim>\<open>void h265_skip_startcode(uint8_t **p, size_t *n)\<close>: the function updates \<^verbatim>\<open>*p\<close>
  and \<^verbatim>\<open>*n\<close> in place; the model returns the new pair.
\<close>

definition h265_skip_startcode :: "mem \<Rightarrow> ptr \<times> size_t \<Rightarrow> fault + ptr \<times> size_t" where
  "h265_skip_startcode m pn =
     (case pn of (p, n) \<Rightarrow>
        if n < 4 then Inr (p, n)
        else sbind (memcmp0 m p sc4) (\<lambda>is4.
          if is4 then Inr (p + 4, n - 4)
          else sbind (memcmp0 m p sc3) (\<lambda>is3.
            if is3 then Inr (p + 3, n - 3) else Inr (p, n))))"

text \<open>\<^verbatim>\<open>bool h265_have_startcode(const uint8_t *p, size_t len)\<close>\<close>

definition h265_have_startcode :: "mem \<Rightarrow> ptr \<Rightarrow> size_t \<Rightarrow> fault + bool" where
  "h265_have_startcode m p len =
     sbind (andalso (Inr (4 \<le> len)) (memcmp0 m p sc4)) (\<lambda>is4.
       if is4 then Inr True
       else sbind (andalso (Inr (3 \<le> len)) (memcmp0 m p sc3)) (\<lambda>is3.
         if is3 then Inr True else Inr False))"

section \<open>The packetizer\<close>

text \<open>
  One call of the packet handler
  \<^verbatim>\<open>pkth(marker, rtp_ts, hdr, hdr_len, pld, pld_len, arg)\<close>. The header is \<^verbatim>\<open>NULL\<close> with
  length 0 (\<open>None\<close>) or the three bytes of \<^verbatim>\<open>fu_hdr\<close> as they are at the call. The
  payload is not copied: it is the pointer into the caller's buffer and its length.
\<close>

record packet =
  marker :: bool
  rtp_ts :: "64 word"
  hdr :: "byte list option"
  pld :: ptr
  pld_len :: size_t

text \<open>
  The handler is the caller's: it returns an error code (0 for success) and may change
  whatever lies behind \<^verbatim>\<open>arg\<close>, the state \<open>'s\<close>.
\<close>

type_synonym 's videnc_packet_h = "packet \<Rightarrow> 's \<Rightarrow> c_int \<times> 's"

text \<open>
  Modelled from the spec: \<^verbatim>\<open>struct h265_nal\<close>, \<^verbatim>\<open>h265_nal_decode\<close>,
  \<^verbatim>\<open>h265_nal_encode\<close> and the enumeration value \<^verbatim>\<open>H265_NAL_FU\<close> are declared in
  \<^verbatim>\<open>h26x.h\<close>, which is not among the sources. The fields of the structure have the
  widths that the spec's data model gives them: a unit type of 6 bits and a temporal id
  plus one of 3 bits.

  \<^verbatim>\<open>packetize\<close> below takes the two functions as parameters \<open>dec\<close> and \<open>enc\<close>: a
  decoder from the two header bytes to an error code and the fields, an encoder from a
  unit type and a temporal id to the two header bytes. The two definitions here follow the
  spec (4.3 and the data model): the decoder is total and reads the type from bits 1-6 of
  the first byte and the temporal id from the low three bits of the second, and the encoder
  masks both fields to their widths. They are used where a concrete codec is needed.
\<close>

record h265_nal =
  nal_unit_type :: "6 word"
  nuh_temporal_id_plus1 :: "3 word"

definition H265_NAL_FU :: "32 word" where
  "H265_NAL_FU = 49"

definition h265_nal_decode :: "byte \<Rightarrow> byte \<Rightarrow> c_int \<times> h265_nal" where
  "h265_nal_decode b0 b1 =
     (0, \<lparr>nal_unit_type = ucast (drop_bit 1 b0 AND 0x3f),
          nuh_temporal_id_plus1 = ucast (b1 AND 0x07)\<rparr>)"

definition h265_nal_encode :: "32 word \<Rightarrow> 32 word \<Rightarrow> byte \<times> byte" where
  "h265_nal_encode t tid = (ucast (push_bit 1 (t AND 0x3f)), ucast (tid AND 0x07))"

text \<open>
  \<^verbatim>\<open>fu_hdr[2] &= ~(1 << 7)\<close> (clear the Start bit) and \<^verbatim>\<open>fu_hdr[2] |= 1<<6\<close> (set the
  End bit), on the byte.
\<close>

definition clear_start :: "byte \<Rightarrow> byte" where
  "clear_start x = x AND NOT (push_bit 7 1)"

definition set_end :: "byte \<Rightarrow> byte" where
  "set_end x = x OR push_bit 6 1"

text \<open>
  \<^verbatim>\<open>while (len > flen) { err |= pkth(false, rtp_ts, fu_hdr, 3, buf, flen, arg);
  buf += flen; len -= flen; fu_hdr[2] &= ~(1 << 7); }\<close>

  With \<open>flen = 0\<close> the loop does not end: the result \<open>None\<close>.
\<close>

partial_function (option) fu_loop ::
  "'s videnc_packet_h \<Rightarrow> 64 word \<Rightarrow> size_t \<Rightarrow> byte list \<Rightarrow> ptr \<Rightarrow> size_t \<Rightarrow> c_int \<Rightarrow> 's
     \<Rightarrow> (byte list \<times> ptr \<times> size_t \<times> c_int \<times> 's) option" where
  "fu_loop pkth ts flen fu_hdr buf len err s =
     (if len > flen then
        (case pkth \<lparr>marker = False, rtp_ts = ts, hdr = Some fu_hdr, pld = buf, pld_len = flen\<rparr> s of
           (e, s') \<Rightarrow>
             fu_loop pkth ts flen (fu_hdr[2 := clear_start (fu_hdr ! 2)])
               (buf + uint flen) (len - flen) (err OR e) s')
      else Some (fu_hdr, buf, len, err, s))"

declare fu_loop.simps [code]

text \<open>\<^verbatim>\<open>fu_hdr[2] = 1<<7 | nal.nal_unit_type\<close>: an \<^verbatim>\<open>int\<close>, stored in a byte.\<close>

definition fu_byte :: "6 word \<Rightarrow> byte" where
  "fu_byte t = ucast ((push_bit 7 1 :: 32 word) OR ucast t)"

text \<open>
  \<^verbatim>\<open>static inline int packetize(bool marker, const uint8_t *buf, size_t len, size_t maxlen,
  uint64_t rtp_ts, videnc_packet_h *pkth, void *arg)\<close>. The result is the error code and
  the state after the calls of the handler, or a fault of a read of the header bytes, or
  nothing when the loop does not end. The call of \<^verbatim>\<open>warning\<close> only writes to the log and
  is left out.
\<close>

definition packetize ::
  "mem \<Rightarrow> (byte \<Rightarrow> byte \<Rightarrow> c_int \<times> h265_nal) \<Rightarrow> (32 word \<Rightarrow> 32 word \<Rightarrow> byte \<times> byte) \<Rightarrow>
   bool \<Rightarrow> ptr \<Rightarrow> size_t \<Rightarrow> size_t \<Rightarrow> 64 word \<Rightarrow> 's videnc_packet_h \<Rightarrow> 's
     \<Rightarrow> (fault + c_int \<times> 's) option" where
  "packetize m dec enc mk buf len maxlen ts pkth s =
     (if len \<le> maxlen then
        (case pkth \<lparr>marker = mk, rtp_ts = ts, hdr = None, pld = buf, pld_len = len\<rparr> s of
           (e, s') \<Rightarrow> Some (Inr (e, s')))
      else
        (let flen = maxlen - 3 in
         case rd m buf of
           Inl f \<Rightarrow> Some (Inl f)
         | Inr b0 \<Rightarrow>
         (case rd m (buf + 1) of
           Inl f \<Rightarrow> Some (Inl f)
         | Inr b1 \<Rightarrow>
         (case dec b0 b1 of
           (err, nal) \<Rightarrow>
             if err \<noteq> 0 then Some (Inr (err, s))
             else
               (case enc H265_NAL_FU (ucast (nuh_temporal_id_plus1 nal)) of
                  (h0, h1) \<Rightarrow>
                    (let fu_hdr = [h0, h1, fu_byte (nal_unit_type nal)]
                     in case fu_loop pkth ts flen fu_hdr (buf + 2) (len - 2) err s of
                          None \<Rightarrow> None
                        | Some (fu_hdr', buf', len', err', s') \<Rightarrow>
                            (let fu_hdr'' = fu_hdr'[2 := set_end (fu_hdr' ! 2)]
                             in case pkth \<lparr>marker = mk, rtp_ts = ts, hdr = Some fu_hdr'',
                                          pld = buf', pld_len = len'\<rparr> s' of
                                  (e, s'') \<Rightarrow> Some (Inr (err' OR e, s'')))))))))"

text \<open>\<^verbatim>\<open>while (!*(r++)) ;\<close>  A read past the buffer is a fault, which ends the loop.\<close>

function skip_zeros :: "mem \<Rightarrow> ptr \<Rightarrow> fault + ptr" where
  "skip_zeros m r =
     (case rd m r of
        Inl f \<Rightarrow> Inl f
      | Inr b \<Rightarrow> if b = 0 then skip_zeros m (r + 1) else Inr (r + 1))"
  by pat_completeness auto
termination
  by (relation "measure (\<lambda>(m, r). nat (mem_end m - r))")
     (auto simp: rd_def in_bounds_def split: if_splits)

declare skip_zeros.simps [simp del]

text \<open>
  The loop \<^verbatim>\<open>while (r < end) { ... }\<close> of \<^verbatim>\<open>h265_packetize\<close>; \<open>err\<close> and \<open>s\<close> are
  the error code and the handler's state so far.
\<close>

partial_function (option) nal_loop ::
  "mem \<Rightarrow> (byte \<Rightarrow> byte \<Rightarrow> c_int \<times> h265_nal) \<Rightarrow> (32 word \<Rightarrow> 32 word \<Rightarrow> byte \<times> byte) \<Rightarrow>
   64 word \<Rightarrow> ptr \<Rightarrow> size_t \<Rightarrow> 's videnc_packet_h \<Rightarrow> ptr \<Rightarrow> c_int \<Rightarrow> 's
     \<Rightarrow> (fault + c_int \<times> 's) option" where
  "nal_loop m dec enc ts end0 pktsize pkth r err s =
     (if r < end0 then
        (case skip_zeros m r of
           Inl f \<Rightarrow> Some (Inl f)
         | Inr r' \<Rightarrow>
         (case h265_find_startcode m r' end0 of
            Inl f \<Rightarrow> Some (Inl f)
          | Inr r1 \<Rightarrow>
              (case packetize m dec enc (r1 \<ge> end0) r' (word_of_int (r1 - r')) pktsize ts pkth s of
                 None \<Rightarrow> None
               | Some (Inl f) \<Rightarrow> Some (Inl f)
               | Some (Inr (e, s')) \<Rightarrow> nal_loop m dec enc ts end0 pktsize pkth r1 (err OR e) s')))
      else Some (Inr (err, s)))"

declare nal_loop.simps [code]

text \<open>
  \<^verbatim>\<open>int h265_packetize(uint64_t rtp_ts, const uint8_t *buf, size_t len, size_t pktsize,
  videnc_packet_h *pkth, void *arg)\<close>
\<close>

definition h265_packetize ::
  "mem \<Rightarrow> (byte \<Rightarrow> byte \<Rightarrow> c_int \<times> h265_nal) \<Rightarrow> (32 word \<Rightarrow> 32 word \<Rightarrow> byte \<times> byte) \<Rightarrow>
   64 word \<Rightarrow> ptr \<Rightarrow> size_t \<Rightarrow> size_t \<Rightarrow> 's videnc_packet_h \<Rightarrow> 's
     \<Rightarrow> (fault + c_int \<times> 's) option" where
  "h265_packetize m dec enc ts buf len pktsize pkth s =
     (let start = buf;
          end0 = buf + uint len
      in case h265_find_startcode m start end0 of
           Inl f \<Rightarrow> Some (Inl f)
         | Inr r \<Rightarrow> nal_loop m dec enc ts end0 pktsize pkth r 0 s)"

text \<open>
  A handler that keeps what it is given: it appends every packet to a list, with the code
  that the handler \<open>f\<close> returns for it. The list is how the claims below speak of the
  packets that a call emits, and of their order.
\<close>

definition recording :: "'s videnc_packet_h \<Rightarrow> ((packet \<times> c_int) list \<times> 's) videnc_packet_h" where
  "recording f pk ls =
     (case ls of (log, s) \<Rightarrow> case f pk s of (e, s') \<Rightarrow> (e, (log @ [(pk, e)], s')))"

text \<open>The bytes of a packet's payload, and the lengths that the handler is given.\<close>

definition pld_bytes :: "mem \<Rightarrow> packet \<Rightarrow> byte list" where
  "pld_bytes m pk = mem_slice m (pld pk) (unat (pld_len pk))"

definition hdr_len :: "packet \<Rightarrow> nat" where
  "hdr_len pk = (case hdr pk of None \<Rightarrow> 0 | Some h \<Rightarrow> length h)"

text \<open>The Start bit, the End bit and the unit type in the third byte of a fragment header.\<close>

definition fu_start :: "byte list \<Rightarrow> bool" where
  "fu_start h = bit (h ! 2) 7"

definition fu_end :: "byte list \<Rightarrow> bool" where
  "fu_end h = bit (h ! 2) 6"

definition fu_type :: "byte list \<Rightarrow> byte" where
  "fu_type h = h ! 2 AND 0x3f"

section \<open>The scanner meets its contract\<close>

lemma rd_in: "in_bounds m p \<Longrightarrow> rd m p = Inr (peek m p)"
  by (simp add: rd_def)

lemma byte_is_in: "in_bounds m p \<Longrightarrow> byte_is m p v = Inr (peek m p = v)"
  by (simp add: byte_is_def rd_in)

lemma match3_eq:
  assumes "base m \<le> p" "p + 2 < mem_end m"
  shows "match3 m p = Inr (sc_at m p)"
proof -
  have "in_bounds m p" "in_bounds m (p + 1)" "in_bounds m (p + 2)"
    using assms by (simp_all add: in_bounds_def)
  then show ?thesis
    using assms by (auto simp: match3_def byte_is_in andalso_def sc_at_def)
qed

lemma no_sc_empty: "hi \<le> lo \<Longrightarrow> no_sc m lo hi"
  by (simp add: no_sc_def)

lemma no_sc_step: "\<not> sc_at m lo \<Longrightarrow> no_sc m (lo + 1) hi \<Longrightarrow> no_sc m lo hi"
  unfolding no_sc_def by (metis atLeastLessThan_iff add.commute zless_imp_add1_zle order_le_less)

lemma no_sc_trans: "no_sc m lo mid \<Longrightarrow> no_sc m mid hi \<Longrightarrow> no_sc m lo hi"
  unfolding no_sc_def by (metis atLeastLessThan_iff not_le)

lemma no_sc_mono: "no_sc m lo hi \<Longrightarrow> lo \<le> lo' \<Longrightarrow> hi' \<le> hi \<Longrightarrow> no_sc m lo' hi'"
  unfolding no_sc_def by auto

definition head_post :: "mem \<Rightarrow> ptr \<Rightarrow> ptr \<Rightarrow> scan \<Rightarrow> bool" where
  "head_post m p lim s =
     (case s of
        Found q \<Rightarrow> p \<le> q \<and> q < lim \<and> sc_at m q \<and> no_sc m p q
      | Upto p' \<Rightarrow> p' = max p lim \<and> no_sc m p p')"

lemma find_head_spec:
  assumes "base m \<le> p" "e + 2 \<le> mem_end m"
  shows "\<exists>s. find_head m a e p = Inr s \<and> head_post m p (min a e) s"
  using assms
proof (induction m a e p rule: find_head.induct)
  case (1 m a e p)
  show ?case
  proof (cases "p < a \<and> p < e")
    case False
    then show ?thesis
      by (subst find_head.simps) (auto simp: head_post_def no_sc_empty)
  next
    case True
    then have m3: "match3 m p = Inr (sc_at m p)"
      using "1.prems" by (intro match3_eq) auto
    show ?thesis
    proof (cases "sc_at m p")
      case hit: True
      then show ?thesis using True m3
        by (subst find_head.simps) (auto simp: head_post_def no_sc_empty)
    next
      case miss: False
      from "1.IH" [OF True m3 miss] "1.prems"
      obtain s where s: "find_head m a e (p + 1) = Inr s" "head_post m (p + 1) (min a e) s"
        by auto
      have "find_head m a e p = Inr s"
        using True m3 miss s(1) by (subst find_head.simps) simp
      moreover have "head_post m p (min a e) s"
        using s(2) miss True
        by (cases s) (auto simp: head_post_def intro: no_sc_step)
      ultimately show ?thesis by blast
    qed
  qed
qed

lemma find_tail_spec:
  assumes "base m \<le> p" "e + 2 \<le> mem_end m"
  shows "\<exists>s. find_tail m e p = Inr s \<and> head_post m p e s"
  using assms
proof (induction m e p rule: find_tail.induct)
  case (1 m e p)
  show ?case
  proof (cases "p < e")
    case False
    then show ?thesis
      by (subst find_tail.simps) (auto simp: head_post_def no_sc_empty)
  next
    case True
    then have m3: "match3 m p = Inr (sc_at m p)"
      using "1.prems" by (intro match3_eq) auto
    show ?thesis
    proof (cases "sc_at m p")
      case hit: True
      then show ?thesis using True m3
        by (subst find_tail.simps) (auto simp: head_post_def no_sc_empty)
    next
      case miss: False
      from "1.IH" [OF True m3 miss] "1.prems"
      obtain s where s: "find_tail m e (p + 1) = Inr s" "head_post m (p + 1) e s"
        by auto
      have "find_tail m e p = Inr s"
        using True m3 miss s(1) by (subst find_tail.simps) simp
      moreover have "head_post m p e s"
        using s(2) miss True
        by (cases s) (auto simp: head_post_def intro: no_sc_step)
      ultimately show ?thesis by blast
    qed
  qed
qed

lemma bit_hi: fixes A N M K d :: int
  assumes N: "0 < N" and M: "(2 * N) dvd M" and A: "A = 2 * N * K + d" and d: "- N \<le> d" "d < 0"
  shows "odd (A mod M div N)"
proof -
  have "A mod M mod (2 * N) = A mod (2 * N)" using M by (simp add: mod_mod_cancel)
  also have "\<dots> = d mod (2 * N)" by (simp add: A)
  also have "\<dots> = (d + 2 * N) mod (2 * N)" by simp
  also have "\<dots> = d + 2 * N" using d N by (intro mod_pos_pos_trivial) auto
  finally have e: "A mod M mod (2 * N) = d + 2 * N" .
  have "(A mod M) mod (N * 2) = N * ((A mod M) div N mod 2) + (A mod M) mod N"
    by (rule zmod_zmult2_eq) simp
  then have "d + 2 * N = N * ((A mod M) div N mod 2) + (A mod M) mod N"
    using e by (simp add: mult.commute)
  moreover have "(A mod M) mod N < N" using N by simp
  ultimately have "0 < N * ((A mod M) div N mod 2)" using d by linarith
  then have "(A mod M) div N mod 2 \<noteq> 0" by (cases "(A mod M) div N mod 2 = 0") simp_all
  then show ?thesis by (simp add: odd_iff_mod_2_eq_one)
qed

lemma bit_lo: fixes A N K d :: int
  assumes N: "0 < N" and A: "A = 2 * N * K + d" and d: "0 \<le> d" "d < N"
  shows "even (A div N)"
proof -
  have "A div N = 2 * K + d div N" using N by (simp add: A mult.assoc mult.left_commute)
  then show ?thesis using d by simp
qed

lemma uint_word32_of:
  "uint (word32_of b0 b1 b2 b3) = uint b0 + 256 * uint b1 + 65536 * uint b2 + 16777216 * uint b3"
proof -
  have "uint b0 < 256" "uint b1 < 256" "uint b2 < 256" "uint b3 < 256"
    using uint_lt2p [of b0] uint_lt2p [of b1] uint_lt2p [of b2] uint_lt2p [of b3] by simp_all
  moreover have "0 \<le> uint b0" "0 \<le> uint b1" "0 \<le> uint b2" "0 \<le> uint b3" by simp_all
  ultimately have "0 \<le> uint b0 + 256 * uint b1 + 65536 * uint b2 + 16777216 * uint b3"
     "uint b0 + 256 * uint b1 + 65536 * uint b2 + 16777216 * uint b3 < 4294967296" by linarith+
  then have "(uint b0 + 256 * uint b1 + 65536 * uint b2 + 16777216 * uint b3) mod 2 ^ LENGTH(32)
      = uint b0 + 256 * uint b1 + 65536 * uint b2 + 16777216 * uint b3"
    by (intro mod_pos_pos_trivial) simp_all
  then show ?thesis
    unfolding word32_of_def by (simp only: uint_word_of_int)
qed

lemma haszero_bit:
  fixes x :: "32 word"
  assumes "n < 32" "bit (0x80808080 :: 32 word) n"
    and "odd ((uint x - 16843009) mod 4294967296 div 2 ^ n)" and "even (uint x div 2 ^ n)"
  shows "haszero x"
proof -
  have "bit (uint (x - 0x01010101)) n"
    using assms(3) by (simp add: uint_word_ariths bit_iff_odd)
  then have b1: "bit (x - 0x01010101) n" by (simp only: bit_uint_iff)
  have "\<not> bit (uint x) n"
    using assms(4) by (simp add: bit_iff_odd)
  then have b2: "\<not> bit x n" using assms(1) by (simp add: bit_uint_iff)
  have "bit ((x - 0x01010101) AND NOT x AND 0x80808080) n"
    using b1 b2 assms(1,2) by (simp add: bit_and_iff bit_not_iff)
  then show ?thesis unfolding haszero_def by (metis bit_0_eq bot_apply bot_bool_def)
qed

lemma haszero_word32_of:
  assumes "b0 = 0 \<or> b1 = 0 \<or> b2 = 0 \<or> b3 = 0"
  shows "haszero (word32_of b0 b1 b2 b3)"
proof -
  define a0 a1 a2 a3 where "a0 = uint b0" and "a1 = uint b1" and "a2 = uint b2" and "a3 = uint b3"
  have ub: "a0 < 256" "a1 < 256" "a2 < 256" "a3 < 256"
    using uint_lt2p [of b0] uint_lt2p [of b1] uint_lt2p [of b2] uint_lt2p [of b3]
    by (simp_all add: a0_def a1_def a2_def a3_def)
  have lb: "0 \<le> a0" "0 \<le> a1" "0 \<le> a2" "0 \<le> a3"
    by (simp_all add: a0_def a1_def a2_def a3_def)
  have nz: "b0 \<noteq> 0 \<Longrightarrow> 1 \<le> a0" "b1 \<noteq> 0 \<Longrightarrow> 1 \<le> a1" "b2 \<noteq> 0 \<Longrightarrow> 1 \<le> a2"
    using uint_0_iff [of b0] uint_0_iff [of b1] uint_0_iff [of b2] lb
    unfolding a0_def a1_def a2_def by linarith+
  let ?x = "word32_of b0 b1 b2 b3"
  have X: "uint ?x = a0 + 256 * a1 + 65536 * a2 + 16777216 * a3"
    by (simp add: uint_word32_of a0_def a1_def a2_def a3_def)
  consider (z0) "b0 = 0" | (z1) "b0 \<noteq> 0" "b1 = 0" | (z2) "b0 \<noteq> 0" "b1 \<noteq> 0" "b2 = 0"
    | (z3) "b0 \<noteq> 0" "b1 \<noteq> 0" "b2 \<noteq> 0" "b3 = 0"
    using assms by blast
  then show ?thesis
  proof cases
    case z0
    then have a: "a0 = 0" by (simp add: a0_def)
    have "odd ((uint ?x - 16843009) mod 4294967296 div 2 ^ 7)"
      by (rule bit_hi [where K = "a1 + 256 * a2 + 65536 * a3 - 65793" and d = "-1"])
         (simp_all add: X a)
    moreover have "even (uint ?x div 2 ^ 7)"
      by (rule bit_lo [where K = "a1 + 256 * a2 + 65536 * a3" and d = 0]) (simp_all add: X a)
    ultimately show ?thesis by (intro haszero_bit [where n = 7]) (simp_all add: bit_iff_odd)
  next
    case z1
    then have a: "a1 = 0" "1 \<le> a0" using nz by (simp_all add: a1_def)
    have "odd ((uint ?x - 16843009) mod 4294967296 div 2 ^ 15)"
      using a ub lb
      by (intro bit_hi [where K = "a2 + 256 * a3 - 257" and d = "a0 - 257"]) (simp_all add: X)
    moreover have "even (uint ?x div 2 ^ 15)"
      using a ub lb by (intro bit_lo [where K = "a2 + 256 * a3" and d = a0]) (simp_all add: X)
    ultimately show ?thesis by (intro haszero_bit [where n = 15]) (simp_all add: bit_iff_odd)
  next
    case z2
    then have a: "a2 = 0" "1 \<le> a0" "1 \<le> a1" using nz by (simp_all add: a2_def)
    have "odd ((uint ?x - 16843009) mod 4294967296 div 2 ^ 23)"
      using a ub lb
      by (intro bit_hi [where K = "a3 - 1" and d = "a0 + 256 * a1 - 65793"]) (simp_all add: X)
    moreover have "even (uint ?x div 2 ^ 23)"
      using a ub lb by (intro bit_lo [where K = "a3" and d = "a0 + 256 * a1"]) (simp_all add: X)
    ultimately show ?thesis by (intro haszero_bit [where n = 23]) (simp_all add: bit_iff_odd)
  next
    case z3
    then have a: "a3 = 0" "1 \<le> a0" "1 \<le> a1" "1 \<le> a2" using nz by (simp_all add: a3_def)
    have "odd ((uint ?x - 16843009) mod 4294967296 div 2 ^ 31)"
      using a ub lb
      by (intro bit_hi [where K = "0" and d = "a0 + 256 * a1 + 65536 * a2 - 16843009"])
         (simp_all add: X)
    moreover have "even (uint ?x div 2 ^ 31)"
      using a ub lb
      by (intro bit_lo [where K = "0" and d = "a0 + 256 * a1 + 65536 * a2"]) (simp_all add: X)
    ultimately show ?thesis by (intro haszero_bit [where n = 31]) (simp_all add: bit_iff_odd)
  qed
qed

lemma int_and_3: "(p::int) AND 3 = p mod 4"
proof -
  have "p AND mask 2 = p mod 2 ^ 2" by (simp only: take_bit_eq_mask [symmetric] take_bit_eq_mod)
  then show ?thesis by (simp add: mask_eq_exp_minus_1)
qed

lemma rd32_in:
  assumes "p AND 3 = 0" "base m \<le> p" "p + 3 < mem_end m"
    and "peek m p = 0 \<or> peek m (p + 1) = 0 \<or> peek m (p + 2) = 0 \<or> peek m (p + 3) = 0"
  shows "\<exists>x. rd32 m p = Inr x \<and> haszero x"
  using assms by (auto simp: rd32_def in_bounds_def intro!: haszero_word32_of)

lemma rd32_ok:
  assumes "p AND 3 = 0" "base m \<le> p" "p + 3 < mem_end m"
  shows "\<exists>x. rd32 m p = Inr x"
  using assms by (auto simp: rd32_def in_bounds_def)

lemma no_sc_unfold:
  "no_sc m p (p + 1) \<longleftrightarrow> \<not> sc_at m p"
  "no_sc m p (p + 2) \<longleftrightarrow> \<not> sc_at m p \<and> \<not> sc_at m (p + 1)"
  "no_sc m p (p + 3) \<longleftrightarrow> \<not> sc_at m p \<and> \<not> sc_at m (p + 1) \<and> \<not> sc_at m (p + 2)"
  "no_sc m p (p + 4) \<longleftrightarrow>
     \<not> sc_at m p \<and> \<not> sc_at m (p + 1) \<and> \<not> sc_at m (p + 2) \<and> \<not> sc_at m (p + 3)"
proof -
  have "{p ..< p + 1} = {p}" "{p ..< p + 2} = {p, p + 1}" "{p ..< p + 3} = {p, p + 1, p + 2}"
    "{p ..< p + 4} = {p, p + 1, p + 2, p + 3}"
    by auto
  then show "no_sc m p (p + 1) \<longleftrightarrow> \<not> sc_at m p"
    "no_sc m p (p + 2) \<longleftrightarrow> \<not> sc_at m p \<and> \<not> sc_at m (p + 1)"
    "no_sc m p (p + 3) \<longleftrightarrow> \<not> sc_at m p \<and> \<not> sc_at m (p + 1) \<and> \<not> sc_at m (p + 2)"
    "no_sc m p (p + 4) \<longleftrightarrow>
       \<not> sc_at m p \<and> \<not> sc_at m (p + 1) \<and> \<not> sc_at m (p + 2) \<and> \<not> sc_at m (p + 3)"
    by (simp_all add: no_sc_def)
qed

definition probe_post :: "mem \<Rightarrow> ptr \<Rightarrow> ptr option \<Rightarrow> bool" where
  "probe_post m p r =
     (case r of
        Some q \<Rightarrow> p \<le> q \<and> q < p + 4 \<and> sc_at m q \<and> no_sc m p q
      | None \<Rightarrow> no_sc m p (p + 4))"

lemma sc_at_peeks:
  assumes "base m \<le> p" "p + 5 < mem_end m"
  shows "sc_at m p \<longleftrightarrow> peek m p = 0 \<and> peek m (p + 1) = 0 \<and> peek m (p + 2) = 1"
    "sc_at m (p + 1) \<longleftrightarrow> peek m (p + 1) = 0 \<and> peek m (p + 2) = 0 \<and> peek m (p + 3) = 1"
    "sc_at m (p + 2) \<longleftrightarrow> peek m (p + 2) = 0 \<and> peek m (p + 3) = 0 \<and> peek m (p + 4) = 1"
    "sc_at m (p + 3) \<longleftrightarrow> peek m (p + 3) = 0 \<and> peek m (p + 4) = 0 \<and> peek m (p + 5) = 1"
  using assms by (simp_all add: sc_at_def add.commute add.left_commute)

lemma probe_hi_spec:
  assumes "base m \<le> p" "p + 5 < mem_end m"
  shows "probe_hi m p =
     Inr (if sc_at m (p + 2) then Some (p + 2) else if sc_at m (p + 3) then Some (p + 3) else None)"
proof -
  have ib: "in_bounds m (p + 2)" "in_bounds m (p + 3)" "in_bounds m (p + 4)" "in_bounds m (p + 5)"
    using assms by (simp_all add: in_bounds_def)
  show ?thesis
    unfolding probe_hi_def sc_at_peeks(3,4) [OF assms]
    by (auto simp: byte_is_in ib sbind_def andalso_def)
qed

lemma probe_word_spec:
  assumes al: "p AND 3 = 0" and lo: "base m \<le> p" and hi: "p + 5 < mem_end m"
  shows "\<exists>r. probe_word m p = Inr r \<and> probe_post m p r"
proof -
  have ib: "in_bounds m p" "in_bounds m (p + 1)" "in_bounds m (p + 2)" "in_bounds m (p + 3)"
    using lo hi by (simp_all add: in_bounds_def)
  obtain x where x: "rd32 m p = Inr x"
    using rd32_ok [OF al lo] hi by auto
  note sp = sc_at_peeks [OF lo hi]
  show ?thesis
  proof (cases "haszero x")
    case False
    have "\<not> (peek m p = 0 \<or> peek m (p + 1) = 0 \<or> peek m (p + 2) = 0 \<or> peek m (p + 3) = 0)"
    proof
      assume "peek m p = 0 \<or> peek m (p + 1) = 0 \<or> peek m (p + 2) = 0 \<or> peek m (p + 3) = 0"
      from rd32_in [OF al lo _ this] hi x False show False by auto
    qed
    then have "no_sc m p (p + 4)"
      by (simp add: no_sc_unfold sp)
    then show ?thesis
      using False x by (simp add: probe_word_def sbind_def probe_post_def)
  next
    case True
    have "probe_word m p =
      Inr (if sc_at m p then Some p else if sc_at m (p + 1) then Some (p + 1)
           else if sc_at m (p + 2) then Some (p + 2) else if sc_at m (p + 3) then Some (p + 3)
           else None)"
      unfolding probe_word_def probe_hi_spec [OF lo hi]
      unfolding sp
      using True x by (auto simp: byte_is_in ib sbind_def andalso_def)
    then show ?thesis
      by (auto simp: probe_post_def no_sc_unfold no_sc_empty)
  qed
qed

definition words_post :: "mem \<Rightarrow> ptr \<Rightarrow> ptr \<Rightarrow> scan \<Rightarrow> bool" where
  "words_post m p e s =
     (case s of
        Found q \<Rightarrow> p \<le> q \<and> q < e + 3 \<and> sc_at m q \<and> no_sc m p q
      | Upto p' \<Rightarrow> p \<le> p' \<and> no_sc m p p')"

lemma find_words_spec:
  assumes "p < e \<longrightarrow> p AND 3 = 0" "base m \<le> p" "e + 5 \<le> mem_end m"
  shows "\<exists>s. find_words m e p = Inr s \<and> words_post m p e s"
  using assms
proof (induction m e p rule: find_words.induct)
  case (1 m e p)
  show ?case
  proof (cases "p < e")
    case False
    then show ?thesis
      by (subst find_words.simps) (auto simp: words_post_def no_sc_empty)
  next
    case True
    then have al: "p AND 3 = 0" using "1.prems" by simp
    obtain r where r: "probe_word m p = Inr r" "probe_post m p r"
      using probe_word_spec [OF al, of m] "1.prems" True by auto
    show ?thesis
    proof (cases r)
      case (Some q)
      then show ?thesis using True r
        by (subst find_words.simps) (auto simp: words_post_def probe_post_def)
    next
      case None
      have al4: "p + 4 < e \<longrightarrow> (p + 4) AND 3 = 0"
        using al by (simp add: int_and_3)
      from "1.IH" [OF True r(1) [unfolded None] refl al4] "1.prems"
      obtain s where s: "find_words m e (p + 4) = Inr s" "words_post m (p + 4) e s"
        by auto
      have "find_words m e p = Inr s"
        using True r(1) None s(1) by (subst find_words.simps) simp
      moreover have "words_post m p e s"
        using s(2) r(2) None
        by (cases s) (auto simp: words_post_def probe_post_def intro: no_sc_trans)
      ultimately show ?thesis by blast
    qed
  qed
qed

text \<open>The contract of the scanner: \<open>r\<close> is what a search from \<open>p\<close> up to \<open>e\<close> returns.\<close>

definition next_sc :: "mem \<Rightarrow> ptr \<Rightarrow> ptr \<Rightarrow> ptr \<Rightarrow> bool" where
  "next_sc m p e r =
     (if r = e then no_sc m p (e - 3)
      else p \<le> r \<and> r < e - 3 \<and> sc_at m r \<and> no_sc m p r)"

lemma find_startcode_spec:
  assumes lo: "base m \<le> p" and hi: "e \<le> mem_end m"
  shows "\<exists>r. h265_find_startcode m p e = Inr r \<and> next_sc m p e r"
proof -
  define a where "a = p + 4 - (p AND 3)"
  have a: "a AND 3 = 0" "p < a"
    unfolding a_def int_and_3 by presburger+
  obtain s1 where s1: "find_head m a (e - 3) p = Inr s1" "head_post m p (min a (e - 3)) s1"
    using find_head_spec [OF lo, of "e - 3" a] hi by auto
  show ?thesis
  proof (cases s1)
    case (Found q)
    then show ?thesis
      using s1 by (auto simp: h265_find_startcode_def Let_def sbind_def a_def [symmetric]
          head_post_def next_sc_def)
  next
    case (Upto p1)
    have "head_post m p (min a (e - 3)) (Upto p1)"
      using s1(2) unfolding Upto .
    then have p1: "p1 = max p (min a (e - 3))" "no_sc m p p1"
      by (auto simp: head_post_def)
    have al1: "p1 < e - 3 - 3 \<longrightarrow> p1 AND 3 = 0"
      using p1(1) a by auto
    have lo1: "base m \<le> p1" using p1(1) lo by simp
    obtain s2 where s2: "find_words m (e - 3 - 3) p1 = Inr s2" "words_post m p1 (e - 3 - 3) s2"
      using find_words_spec [OF al1 lo1] hi by auto
    show ?thesis
    proof (cases s2)
      case (Found q)
      then have "p1 \<le> q" "q < e - 3" "sc_at m q" "no_sc m p1 q"
        using s2(2) by (simp_all add: words_post_def)
      then have "next_sc m p e q"
        using p1 by (auto simp: next_sc_def intro: no_sc_trans)
      then show ?thesis
        using s1(1) Upto s2(1) Found
        by (simp add: h265_find_startcode_def Let_def sbind_def a_def [symmetric])
    next
      case up2: (Upto p2)
      then have p2: "p1 \<le> p2" "no_sc m p1 p2"
        using s2(2) by (simp_all add: words_post_def)
      have lo2: "base m \<le> p2" using p2(1) lo1 by simp
      obtain s3 where s3: "find_tail m (e - 3 - 3 + 3) p2 = Inr s3"
          "head_post m p2 (e - 3 - 3 + 3) s3"
        using find_tail_spec [OF lo2, of "e - 3 - 3 + 3"] hi by auto
      have np2: "no_sc m p p2" using p1(2) p2(2) by (rule no_sc_trans)
      show ?thesis
      proof (cases s3)
        case (Found q)
        then have "p2 \<le> q" "q < e - 3" "sc_at m q" "no_sc m p2 q"
          using s3(2) by (simp_all add: head_post_def)
        then have "next_sc m p e q"
          using np2 p2(1) p1(1) by (auto simp: next_sc_def intro: no_sc_trans)
        then show ?thesis
          using s1(1) Upto s2(1) up2 s3(1) Found
          by (simp add: h265_find_startcode_def Let_def sbind_def a_def [symmetric])
      next
        case up3: (Upto p3)
        have "head_post m p2 (e - 3 - 3 + 3) (Upto p3)"
          using s3(2) unfolding up3 .
        then have "p3 = max p2 (e - 3) \<and> no_sc m p2 p3"
          by (auto simp: head_post_def)
        then have "no_sc m p (e - 3)"
          using np2 by (auto intro: no_sc_mono [OF no_sc_trans])
        then have "next_sc m p e e"
          by (simp add: next_sc_def)
        then show ?thesis
          using s1(1) Upto s2(1) up2 s3(1) up3
          by (simp add: h265_find_startcode_def Let_def sbind_def a_def [symmetric])
      qed
    qed
  qed
qed

section \<open>Rules for the loops of the packetizer\<close>

lemma sc_at_apart:
  assumes "sc_at m q"
  shows "\<not> sc_at m (q + 1)" "\<not> sc_at m (q + 2)"
  using assms by (auto simp: sc_at_def add.commute add.left_commute)

lemma sc_at_distance:
  assumes "sc_at m q" "sc_at m q'" "q < q'"
  shows "q + 3 \<le> q'"
proof (rule ccontr)
  assume "\<not> q + 3 \<le> q'"
  then have "q' = q + 1 \<or> q' = q + 2" using assms(3) by linarith
  then show False using sc_at_apart [OF assms(1)] assms(2) by auto
qed

lemma skip_zeros_step:
  assumes "in_bounds m r"
  shows "skip_zeros m r = (if peek m r = 0 then skip_zeros m (r + 1) else Inr (r + 1))"
  by (subst skip_zeros.simps) (simp add: rd_in assms)

lemma skip_zeros_sc:
  assumes "sc_at m q"
  shows "skip_zeros m q = Inr (q + 3)"
proof -
  have ib: "in_bounds m q" "in_bounds m (q + 1)" "in_bounds m (q + 2)"
    and pk: "peek m q = 0" "peek m (q + 1) = 0" "peek m (q + 2) = 1"
    using assms by (simp_all add: sc_at_def in_bounds_def)
  have a: "q + 1 + 1 = q + 2" "q + 2 + 1 = q + 3" by simp_all
  have "skip_zeros m q = skip_zeros m (q + 1)"
    using skip_zeros_step [OF ib(1)] pk(1) by simp
  also have "\<dots> = skip_zeros m (q + 2)"
    using skip_zeros_step [OF ib(2)] pk(2) unfolding a by simp
  also have "\<dots> = Inr (q + 3)"
    using skip_zeros_step [OF ib(3)] pk(3) unfolding a by simp
  finally show ?thesis .
qed

text \<open>
  The fragment loop: an invariant \<open>I\<close> of the loop's variables that every round keeps
  holds when the loop ends, and the loop ends when the fragment length is not 0.
\<close>

lemma fu_loop_rule:
  assumes flen: "0 < flen"
    and I0: "I fu buf len err st"
    and step: "\<And>fu buf len err st e st'. I fu buf len err st \<Longrightarrow> flen < len \<Longrightarrow>
        pkth \<lparr>marker = False, rtp_ts = ts, hdr = Some fu, pld = buf, pld_len = flen\<rparr> st = (e, st') \<Longrightarrow>
        I (fu[2 := clear_start (fu ! 2)]) (buf + uint flen) (len - flen) (err OR e) st'"
  shows "\<exists>fu' buf' len' err' st'.
      fu_loop pkth ts flen fu buf len err st = Some (fu', buf', len', err', st') \<and>
      I fu' buf' len' err' st' \<and> len' \<le> flen"
  using I0
proof (induction "unat len" arbitrary: fu buf len err st rule: less_induct)
  case less
  show ?case
  proof (cases "flen < len")
    case False
    then have "len \<le> flen" by (simp add: not_less)
    then show ?thesis
      using less.prems False by (subst fu_loop.simps) simp
  next
    case True
    obtain e st' where p:
      "pkth \<lparr>marker = False, rtp_ts = ts, hdr = Some fu, pld = buf, pld_len = flen\<rparr> st = (e, st')"
      by fastforce
    have "unat flen \<le> unat len" "0 < unat flen"
      using True flen by (simp_all add: word_less_nat_alt unat_gt_0)
    then have d: "unat (len - flen) < unat len"
      using True by (simp add: unat_sub word_le_nat_alt)
    from less.hyps [OF d step [OF less.prems True p]]
    show ?thesis
      by (subst fu_loop.simps) (simp add: True p)
  qed
qed

text \<open>A position that the scanner returns: the end, or a start code before \<open>e - 3\<close>.\<close>

definition at_sc :: "mem \<Rightarrow> ptr \<Rightarrow> ptr \<Rightarrow> bool" where
  "at_sc m e r = (if r = e then True else r < e - 3 \<and> sc_at m r)"

lemma next_sc_at_sc: "next_sc m p e r \<Longrightarrow> at_sc m e r"
  by (auto simp: next_sc_def at_sc_def split: if_splits)

lemma next_sc_ge: "next_sc m p e r \<Longrightarrow> p \<le> e \<Longrightarrow> p \<le> r"
  by (auto simp: next_sc_def split: if_splits)

lemma next_sc_le: "next_sc m p e r \<Longrightarrow> r \<le> e"
  by (auto simp: next_sc_def split: if_splits)

text \<open>
  The loop over the units: an invariant \<open>J\<close> of the position, the error code and the
  handler's state that the packetizing of every unit keeps holds at the end of the buffer,
  and the loop ends when \<^verbatim>\<open>packetize\<close> returns for every unit. A unit begins three
  bytes after a start code at \<open>q\<close> and ends at \<open>r1\<close>, the next position that the
  scanner returns.
\<close>

lemma nal_loop_rule:
  assumes e: "e \<le> mem_end m"
    and r: "at_sc m e r"
    and J0: "J r err st"
    and step: "\<And>q r1 err st. sc_at m q \<Longrightarrow> q < e - 3 \<Longrightarrow> J q err st \<Longrightarrow> next_sc m (q + 3) e r1 \<Longrightarrow>
        \<exists>x st'. packetize m dec enc (e \<le> r1) (q + 3) (word_of_int (r1 - (q + 3))) pktsize ts pkth st
                   = Some (Inr (x, st')) \<and> J r1 (err OR x) st'"
  shows "\<exists>err' st'. nal_loop m dec enc ts e pktsize pkth r err st = Some (Inr (err', st')) \<and>
      J e err' st'"
  using r J0
proof (induction "nat (e - r)" arbitrary: r err st rule: less_induct)
  case less
  show ?case
  proof (cases "r = e")
    case True
    then show ?thesis
      using less.prems by (subst nal_loop.simps) simp
  next
    case False
    then have q: "r < e - 3" "sc_at m r"
      using less.prems(1) by (simp_all add: at_sc_def)
    then have lo: "base m \<le> r + 3" by (simp add: sc_at_def)
    obtain r1 where r1: "h265_find_startcode m (r + 3) e = Inr r1" "next_sc m (r + 3) e r1"
      using find_startcode_spec [OF lo e] by auto
    from step [OF q(2) q(1) less.prems(2) r1(2)]
    obtain x st' where x:
      "packetize m dec enc (e \<le> r1) (r + 3) (word_of_int (r1 - (r + 3))) pktsize ts pkth st
         = Some (Inr (x, st'))" "J r1 (err OR x) st'"
      by auto
    have "r + 3 \<le> r1" using next_sc_ge [OF r1(2)] q(1) by simp
    moreover have "r1 \<le> e" using r1(2) by (rule next_sc_le)
    ultimately have d: "nat (e - r1) < nat (e - r)" using q(1) by simp
    have lt: "r < e" using q(1) by simp
    from less.hyps [OF d next_sc_at_sc [OF r1(2)] x(2)]
    obtain err' st'' where res:
      "nal_loop m dec enc ts e pktsize pkth r1 (err OR x) st' = Some (Inr (err', st''))"
      "J e err' st''"
      by auto
    have "nal_loop m dec enc ts e pktsize pkth r err st = Some (Inr (err', st''))"
      by (subst nal_loop.simps) (simp only: lt if_True skip_zeros_sc [OF q(2)] r1(1) x(1) res(1)
          sum.case option.case prod.case)
    then show ?thesis using res(2) by blast
  qed
qed

text \<open>
  A call of \<^verbatim>\<open>h265_packetize\<close> on a whole buffer: \<open>buf\<close> is its address and \<open>len\<close>
  its length.
\<close>

definition whole_buffer :: "mem \<Rightarrow> ptr \<Rightarrow> size_t \<Rightarrow> bool" where
  "whole_buffer m buf len = (buf = base m \<and> uint len = int (length (bytes m)))"

lemma whole_buffer_end: "whole_buffer m buf len \<Longrightarrow> buf + uint len = mem_end m"
  by (simp add: whole_buffer_def mem_end_def)

lemma h265_packetize_rule:
  assumes wb: "whole_buffer m buf len"
    and J0: "\<And>r. next_sc m (base m) (mem_end m) r \<Longrightarrow> J r 0 st"
    and step: "\<And>q r1 err st. sc_at m q \<Longrightarrow> q < mem_end m - 3 \<Longrightarrow> J q err st \<Longrightarrow>
        next_sc m (q + 3) (mem_end m) r1 \<Longrightarrow>
        \<exists>x st'. packetize m dec enc (mem_end m \<le> r1) (q + 3) (word_of_int (r1 - (q + 3))) pktsize ts
                   pkth st = Some (Inr (x, st')) \<and> J r1 (err OR x) st'"
  shows "\<exists>err' st'. h265_packetize m dec enc ts buf len pktsize pkth st = Some (Inr (err', st')) \<and>
      J (mem_end m) err' st'"
proof -
  have b: "buf = base m" "base m + uint len = mem_end m"
    using wb by (simp_all add: whole_buffer_def mem_end_def)
  obtain r where r: "h265_find_startcode m (base m) (mem_end m) = Inr r"
      "next_sc m (base m) (mem_end m) r"
    using find_startcode_spec [of m "base m" "mem_end m"] by auto
  from nal_loop_rule [where J = J, OF order_refl next_sc_at_sc [OF r(2)] J0 [OF r(2)] step]
  show ?thesis
    by (simp add: h265_packetize_def Let_def whole_buffer_end [OF wb] b r(1))
qed

section \<open>Words and bits of the packetizer\<close>

lemma flen_pos:
  fixes maxlen :: size_t
  assumes "3 < maxlen"
  shows "0 < maxlen - 3" "uint (maxlen - 3) = uint maxlen - 3"
proof -
  have "uint (3 :: size_t) < uint maxlen" using assms by (simp only: word_less_def)
  then have l: "3 < uint maxlen" by simp
  then show u: "uint (maxlen - 3) = uint maxlen - 3"
    by (simp add: uint_sub_if')
  then have "uint (maxlen - 3) \<noteq> 0" using l by simp
  then have "maxlen - 3 \<noteq> 0" by (metis uint_0_eq)
  then show "0 < maxlen - 3" by (simp add: word_greater_zero_iff)
qed

lemma unit_len_minus_2:
  fixes len maxlen :: size_t
  assumes "3 < maxlen" "\<not> len \<le> maxlen"
  shows "uint (len - 2) = uint len - 2" "maxlen - 3 < len - 2"
proof -
  have "uint (3 :: size_t) < uint maxlen" using assms(1) by (simp only: word_less_def)
  moreover have "uint maxlen < uint len" using assms(2) by (simp add: word_le_def not_le)
  ultimately have l: "3 < uint maxlen" "uint maxlen < uint len" by simp_all
  then show u: "uint (len - 2) = uint len - 2" by (simp add: uint_sub_if')
  have "uint (maxlen - 3) < uint (len - 2)"
    using l u flen_pos(2) [OF assms(1)] by simp
  then show "maxlen - 3 < len - 2" by (simp only: word_less_def)
qed

lemma word_sub_less:
  fixes l flen :: size_t
  assumes "flen < l"
  shows "uint (l - flen) = uint l - uint flen" "0 < l - flen"
proof -
  have l: "uint flen < uint l" using assms by (simp only: word_less_def)
  then show u: "uint (l - flen) = uint l - uint flen" by (simp add: uint_sub_if')
  then have "uint (l - flen) \<noteq> 0" using l by simp
  then have "l - flen \<noteq> 0" by (metis uint_0_eq)
  then show "0 < l - flen" by (simp add: word_greater_zero_iff)
qed

lemma or_absorb_new: "(c :: c_int) AND (err OR c) = c"
  by (rule bit_eqI) (auto simp: bit_and_iff bit_or_iff)

lemma or_absorb_old: "(c :: c_int) AND err = c \<Longrightarrow> c AND (err OR e) = c"
  by (rule bit_eqI) (auto simp: bit_and_iff bit_or_iff bit_eq_iff)

lemma bit_push_7_byte: "bit (push_bit 7 (1 :: byte)) n \<longleftrightarrow> n = 7"
  unfolding bit_push_bit_iff bit_1_iff by (auto simp: possible_bit_word)

lemma bit_push_6_byte: "bit (push_bit 6 (1 :: byte)) n \<longleftrightarrow> n = 6"
  unfolding bit_push_bit_iff bit_1_iff by (auto simp: possible_bit_word)

lemma bit_push_7_int: "bit (push_bit 7 (1 :: 32 word)) n \<longleftrightarrow> n = 7"
  unfolding bit_push_bit_iff bit_1_iff by (auto simp: possible_bit_word)

lemma bit_fu_byte: "bit (fu_byte t) n \<longleftrightarrow> n = 7 \<or> bit t n"
proof -
  have "bit (fu_byte t) n \<longleftrightarrow> n < 8 \<and> (bit (push_bit 7 (1 :: 32 word)) n \<or> (n < 32 \<and> bit t n))"
    unfolding fu_byte_def bit_ucast_iff bit_or_iff possible_bit_word by simp
  also have "\<dots> \<longleftrightarrow> n = 7 \<or> bit t n"
    unfolding bit_push_7_int by (auto dest: bit_imp_le_length)
  finally show ?thesis .
qed

lemma bit_clear_start: "bit (clear_start x) n \<longleftrightarrow> bit x n \<and> n \<noteq> 7"
  unfolding clear_start_def bit_and_iff bit_not_iff bit_push_7_byte
  by (auto simp: possible_bit_word dest: bit_imp_le_length)

lemma bit_set_end: "bit (set_end x) n \<longleftrightarrow> bit x n \<or> n = 6"
  unfolding set_end_def bit_or_iff bit_push_6_byte by simp

lemma bit_low6: "bit (x AND (0x3f :: byte)) n \<longleftrightarrow> bit x n \<and> n < 6"
proof -
  have m: "(0x3f :: byte) = mask 6" by (simp add: mask_eq_exp_minus_1)
  show ?thesis unfolding m bit_and_iff bit_mask_iff by (auto simp: possible_bit_word)
qed

lemma low6_clear_start: "clear_start x AND 0x3f = x AND 0x3f"
  by (rule bit_eqI) (auto simp: bit_low6 bit_clear_start)

lemma low6_set_end: "set_end x AND 0x3f = x AND 0x3f"
  by (rule bit_eqI) (auto simp: bit_low6 bit_set_end)

lemma low6_fu_byte: "fu_byte t AND 0x3f = ucast t"
  by (rule bit_eqI) (auto simp: bit_low6 bit_fu_byte bit_ucast_iff dest: bit_imp_le_length)

lemma fu_bits_simps:
  "fu_start [h0, h1, fu_byte t]" "\<not> fu_end [h0, h1, fu_byte t]"
  "fu_type [h0, h1, fu_byte t] = ucast t"
  "\<not> fu_start [h0, h1, clear_start x]" "fu_end [h0, h1, clear_start x] = fu_end [h0, h1, x]"
  "fu_type [h0, h1, clear_start x] = fu_type [h0, h1, x]"
  "fu_end [h0, h1, set_end x]" "fu_start [h0, h1, set_end x] = fu_start [h0, h1, x]"
  "fu_type [h0, h1, set_end x] = fu_type [h0, h1, x]"
  by (simp_all add: fu_start_def fu_end_def fu_type_def bit_fu_byte bit_clear_start bit_set_end
      low6_clear_start low6_set_end low6_fu_byte)
     (auto dest: bit_imp_le_length)

section \<open>A rule for \<^verbatim>\<open>packetize\<close>\<close>

text \<open>The unit \<open>[buf, buf + len)\<close> lies in the buffer.\<close>

definition unit_in :: "mem \<Rightarrow> ptr \<Rightarrow> size_t \<Rightarrow> bool" where
  "unit_in m buf len = (base m \<le> buf \<and> buf + uint len \<le> mem_end m)"

lemma packetize_small:
  assumes "len \<le> maxlen"
    and "pkth \<lparr>marker = mk, rtp_ts = ts, hdr = None, pld = buf, pld_len = len\<rparr> s = (e, s')"
  shows "packetize m dec enc mk buf len maxlen ts pkth s = Some (Inr (e, s'))"
  using assms by (simp add: packetize_def)

lemma packetize_header_read:
  assumes "3 < maxlen" "\<not> len \<le> maxlen" "unit_in m buf len"
  shows "rd m buf = Inr (peek m buf)" "rd m (buf + 1) = Inr (peek m (buf + 1))"
proof -
  have "uint (3 :: size_t) < uint maxlen" using assms(1) by (simp only: word_less_def)
  moreover have "uint maxlen < uint len" using assms(2) by (simp add: word_le_def not_le)
  ultimately have "3 < uint len" by simp
  then have "in_bounds m buf" "in_bounds m (buf + 1)"
    using assms(3) by (simp_all add: unit_in_def in_bounds_def)
  then show "rd m buf = Inr (peek m buf)" "rd m (buf + 1) = Inr (peek m (buf + 1))"
    by (simp_all add: rd_in)
qed

lemma packetize_decode_error:
  assumes "3 < maxlen" "\<not> len \<le> maxlen" "unit_in m buf len"
    and "dec (peek m buf) (peek m (buf + 1)) = (d, nal)" "d \<noteq> 0"
  shows "packetize m dec enc mk buf len maxlen ts pkth s = Some (Inr (d, s))"
  using assms(2,4,5) packetize_header_read [OF assms(1-3)]
  by (simp add: packetize_def)

lemma packetize_fragment:
  assumes "3 < maxlen" "\<not> len \<le> maxlen" "unit_in m buf len"
    and "dec (peek m buf) (peek m (buf + 1)) = (0, nal)"
    and "enc H265_NAL_FU (ucast (nuh_temporal_id_plus1 nal)) = (h0, h1)"
    and "fu_loop pkth ts (maxlen - 3) [h0, h1, fu_byte (nal_unit_type nal)] (buf + 2) (len - 2) 0 s
           = Some (fu, b, l, err, s')"
    and "pkth \<lparr>marker = mk, rtp_ts = ts, hdr = Some (fu[2 := set_end (fu ! 2)]), pld = b,
                pld_len = l\<rparr> s' = (e, s'')"
  shows "packetize m dec enc mk buf len maxlen ts pkth s = Some (Inr (err OR e, s''))"
  using assms(2,4-7) packetize_header_read [OF assms(1-3)]
  by (simp add: packetize_def Let_def)

text \<open>
  The rule: \<open>Q\<close> holds of the result of \<^verbatim>\<open>packetize\<close> when it holds of the single
  packet of a unit that fits, of the error of a unit whose header is not decoded, and
  after the last fragment of a unit that is split, \<open>I\<close> being an invariant of the fragment
  loop. With a packet size above 3, \<^verbatim>\<open>packetize\<close> returns.
\<close>

lemma packetize_rule:
  assumes ml: "3 < maxlen" and ui: "unit_in m buf len"
    and small: "\<And>e st'. len \<le> maxlen \<Longrightarrow>
        pkth \<lparr>marker = mk, rtp_ts = ts, hdr = None, pld = buf, pld_len = len\<rparr> st = (e, st') \<Longrightarrow>
        Q e st'"
    and fail: "\<And>d nal. \<not> len \<le> maxlen \<Longrightarrow> dec (peek m buf) (peek m (buf + 1)) = (d, nal) \<Longrightarrow>
        d \<noteq> 0 \<Longrightarrow> Q d st"
    and init: "\<And>nal h0 h1. \<not> len \<le> maxlen \<Longrightarrow> dec (peek m buf) (peek m (buf + 1)) = (0, nal) \<Longrightarrow>
        enc H265_NAL_FU (ucast (nuh_temporal_id_plus1 nal)) = (h0, h1) \<Longrightarrow>
        I [h0, h1, fu_byte (nal_unit_type nal)] (buf + 2) (len - 2) 0 st"
    and step: "\<And>fu b l err st e st'. I fu b l err st \<Longrightarrow> maxlen - 3 < l \<Longrightarrow>
        pkth \<lparr>marker = False, rtp_ts = ts, hdr = Some fu, pld = b, pld_len = maxlen - 3\<rparr> st
          = (e, st') \<Longrightarrow>
        I (fu[2 := clear_start (fu ! 2)]) (b + uint (maxlen - 3)) (l - (maxlen - 3)) (err OR e) st'"
    and fin: "\<And>fu b l err st e st'. I fu b l err st \<Longrightarrow> l \<le> maxlen - 3 \<Longrightarrow>
        pkth \<lparr>marker = mk, rtp_ts = ts, hdr = Some (fu[2 := set_end (fu ! 2)]), pld = b,
               pld_len = l\<rparr> st = (e, st') \<Longrightarrow>
        Q (err OR e) st'"
  shows "\<exists>x st'. packetize m dec enc mk buf len maxlen ts pkth st = Some (Inr (x, st')) \<and> Q x st'"
proof (cases "len \<le> maxlen")
  case True
  obtain e st' where
    p: "pkth \<lparr>marker = mk, rtp_ts = ts, hdr = None, pld = buf, pld_len = len\<rparr> st = (e, st')"
    by fastforce
  show ?thesis
    using packetize_small [where pkth = pkth and m = m and dec = dec and enc = enc, OF True p]
      small [OF True p] by blast
next
  case False
  obtain d nal where d: "dec (peek m buf) (peek m (buf + 1)) = (d, nal)" by fastforce
  show ?thesis
  proof (cases "d = 0")
    case nz: False
    show ?thesis
      using packetize_decode_error [where pkth = pkth and dec = dec, OF ml False ui d nz] fail [OF False d nz]
        by blast
  next
    case True
    note d0 = d [unfolded True]
    obtain h0 h1 where h: "enc H265_NAL_FU (ucast (nuh_temporal_id_plus1 nal)) = (h0, h1)"
      by fastforce
    have "\<exists>fu' b' l' err' st'.
        fu_loop pkth ts (maxlen - 3) [h0, h1, fu_byte (nal_unit_type nal)] (buf + 2) (len - 2)
          0 st = Some (fu', b', l', err', st') \<and> I fu' b' l' err' st' \<and> l' \<le> maxlen - 3"
    proof (rule fu_loop_rule [where I = I])
      show "0 < maxlen - 3" by (rule flen_pos(1) [OF ml])
      show "I [h0, h1, fu_byte (nal_unit_type nal)] (buf + 2) (len - 2) 0 st"
        by (rule init [OF False d0 h])
    next
      fix fu b l err st e st'
      assume "I fu b l err st" "maxlen - 3 < l"
        "pkth \<lparr>marker = False, rtp_ts = ts, hdr = Some fu, pld = b, pld_len = maxlen - 3\<rparr> st
           = (e, st')"
      then show "I (fu[2 := clear_start (fu ! 2)]) (b + uint (maxlen - 3)) (l - (maxlen - 3))
          (err OR e) st'"
        by (rule step)
    qed
    then obtain fu b l err st' where
      fl: "fu_loop pkth ts (maxlen - 3) [h0, h1, fu_byte (nal_unit_type nal)] (buf + 2) (len - 2)
             0 st = Some (fu, b, l, err, st')"
      and inv: "I fu b l err st'" and le: "l \<le> maxlen - 3"
      by blast
    obtain e st'' where
      p: "pkth \<lparr>marker = mk, rtp_ts = ts, hdr = Some (fu[2 := set_end (fu ! 2)]), pld = b,
                 pld_len = l\<rparr> st' = (e, st'')"
      by fastforce
    show ?thesis
      using packetize_fragment [where pkth = pkth and dec = dec and enc = enc, OF ml False ui d0 h fl p] fin [OF inv le p]
      by blast
  qed
qed

lemma recording_call:
  "recording f pk (log, s) = (e, st') \<longleftrightarrow> (\<exists>s'. f pk s = (e, s') \<and> st' = (log @ [(pk, e)], s'))"
  by (auto simp: recording_def split: prod.splits)


section \<open>Units of a buffer\<close>

lemma unit_of_sc:
  assumes wb: "whole_buffer m buf0 len0" and sc: "sc_at m q" and q: "q < mem_end m - 3"
    and nx: "next_sc m (q + 3) (mem_end m) r1"
  shows "q + 3 \<le> r1" "r1 \<le> mem_end m"
    "uint (word_of_int (r1 - (q + 3)) :: size_t) = r1 - (q + 3)"
    "unit_in m (q + 3) (word_of_int (r1 - (q + 3)))"
proof -
  show ge: "q + 3 \<le> r1" using next_sc_ge [OF nx] q by simp
  show le: "r1 \<le> mem_end m" using nx by (rule next_sc_le)
  have b: "base m \<le> q" using sc by (simp add: sc_at_def)
  have "int (length (bytes m)) < 2 ^ LENGTH(64)"
    using wb uint_lt2p [of len0] by (simp add: whole_buffer_def)
  then have "r1 - (q + 3) < 2 ^ LENGTH(64)"
    using le b by (simp add: mem_end_def)
  moreover have "0 \<le> r1 - (q + 3)" using ge by simp
  ultimately have "(r1 - (q + 3)) mod 2 ^ LENGTH(64) = r1 - (q + 3)"
    by (intro mod_pos_pos_trivial)
  then show u: "uint (word_of_int (r1 - (q + 3)) :: size_t) = r1 - (q + 3)"
    by (simp only: uint_word_of_int)
  show "unit_in m (q + 3) (word_of_int (r1 - (q + 3)))"
    unfolding unit_in_def u using b le by simp
qed

lemma next_sc_unique:
  assumes "next_sc m p e r" "next_sc m p e r'"
  shows "r = r'"
proof (rule ccontr)
  assume ne: "r \<noteq> r'"
  have *: False if a: "next_sc m p e x" "next_sc m p e y" "x < y" for x y
  proof -
    have xe: "x \<noteq> e" using next_sc_le [OF a(2)] a(3) by simp
    then have x: "p \<le> x" "x < e - 3" "sc_at m x" using a(1) by (simp_all add: next_sc_def)
    show False
    proof (cases "y = e")
      case True
      then have "no_sc m p (e - 3)" using a(2) by (simp add: next_sc_def)
      then show False using x by (auto simp: no_sc_def)
    next
      case False
      then have "no_sc m p y" using a(2) by (simp add: next_sc_def)
      then show False using x a(3) by (auto simp: no_sc_def)
    qed
  qed
  show False using * [OF assms] * [OF assms(2,1)] ne by linarith
qed

lemma find_startcode_eq:
  assumes "base m \<le> p" "e \<le> mem_end m" "next_sc m p e r"
  shows "h265_find_startcode m p e = Inr r"
  using find_startcode_spec [OF assms(1,2)] next_sc_unique [OF assms(3)] by auto

lemma next_sc_here: "sc_at m p \<Longrightarrow> p < e - 3 \<Longrightarrow> next_sc m p e p"
  by (auto simp: next_sc_def no_sc_def)

section \<open>The packets of one unit\<close>

text \<open>The end of a packet's payload.\<close>

definition pld_end :: "packet \<Rightarrow> ptr" where
  "pld_end pk = pld pk + uint (pld_len pk)"

text \<open>
  The sizes of a packet under the packet size \<open>maxlen\<close>: without a header at most
  \<open>maxlen\<close> payload bytes; with a header, three header bytes and \<open>maxlen - 3\<close> payload
  bytes, or between 1 and \<open>maxlen - 3\<close> when the End bit is set.
\<close>

definition size_ok :: "size_t \<Rightarrow> packet \<Rightarrow> bool" where
  "size_ok maxlen pk =
     (case hdr pk of
        None \<Rightarrow> pld_len pk \<le> maxlen
      | Some h \<Rightarrow> length h = 3 \<and>
          (if fu_end h then 0 < pld_len pk \<and> pld_len pk \<le> maxlen - 3
           else pld_len pk = maxlen - 3))"

text \<open>The header of the unit at \<open>buf\<close> is not decoded, and the unit does not fit.\<close>

definition decode_fails ::
  "mem \<Rightarrow> (byte \<Rightarrow> byte \<Rightarrow> c_int \<times> h265_nal) \<Rightarrow> ptr \<Rightarrow> size_t \<Rightarrow> size_t \<Rightarrow> bool" where
  "decode_fails m dec buf len maxlen =
     (\<not> len \<le> maxlen \<and> fst (dec (peek m buf) (peek m (buf + 1))) \<noteq> 0)"

text \<open>
  What \<^verbatim>\<open>packetize\<close> emits for the unit \<open>[buf, buf + len)\<close> and returns: \<open>new\<close> are
  the packets with the handler's codes, \<open>x\<close> is the result.
\<close>

definition unit_out ::
  "mem \<Rightarrow> (byte \<Rightarrow> byte \<Rightarrow> c_int \<times> h265_nal) \<Rightarrow> bool \<Rightarrow> ptr \<Rightarrow> size_t \<Rightarrow> size_t \<Rightarrow> c_int \<Rightarrow>
   (packet \<times> c_int) list \<Rightarrow> bool" where
  "unit_out m dec mk buf len maxlen x new =
     ((\<forall>(pk, c) \<in> set new. c AND x = c \<and> buf \<le> pld pk \<and> pld_end pk \<le> buf + uint len \<and>
          size_ok maxlen pk \<and> (marker pk \<longrightarrow> mk)) \<and>
      (\<forall>(pk, c) \<in> set (butlast new). \<not> marker pk \<and> pld_end pk < buf + uint len) \<and>
      (if decode_fails m dec buf len maxlen
       then new = [] \<and> x = fst (dec (peek m buf) (peek m (buf + 1)))
       else new \<noteq> [] \<and> marker (fst (last new)) = mk \<and>
            pld_end (fst (last new)) = buf + uint len))"

definition frag_inv ::
  "ptr \<Rightarrow> size_t \<Rightarrow> size_t \<Rightarrow> byte list \<Rightarrow> ptr \<Rightarrow> size_t \<Rightarrow> c_int \<Rightarrow> (packet \<times> c_int) list \<Rightarrow> bool"
  where
  "frag_inv buf len maxlen fu b l err frs =
     (length fu = 3 \<and> \<not> fu_end fu \<and> buf \<le> b \<and> b + uint l = buf + uint len \<and> 0 < l \<and>
      (\<forall>(pk, c) \<in> set frs. c AND err = c \<and> buf \<le> pld pk \<and> pld_end pk < buf + uint len \<and>
          size_ok maxlen pk \<and> \<not> marker pk))"

lemma fu_end_update:
  "length fu = 3 \<Longrightarrow> fu_end (fu[2 := clear_start (fu ! 2)]) = fu_end fu"
  "length fu = 3 \<Longrightarrow> fu_end (fu[2 := set_end (fu ! 2)])"
  by (simp_all add: fu_end_def bit_clear_start bit_set_end)

lemma size_ok_fragment:
  assumes "length fu = 3" "\<not> fu_end fu"
  shows "size_ok maxlen \<lparr>marker = mk, rtp_ts = ts, hdr = Some fu, pld = b, pld_len = maxlen - 3\<rparr>"
  using assms by (simp add: size_ok_def)

lemma size_ok_last:
  assumes "length fu = 3" "0 < l" "l \<le> maxlen - 3"
  shows "size_ok maxlen \<lparr>marker = mk, rtp_ts = ts, hdr = Some (fu[2 := set_end (fu ! 2)]), pld = b,
     pld_len = l\<rparr>"
  using assms by (simp add: size_ok_def fu_end_update)

lemma pld_end_make [simp]:
  "pld_end \<lparr>marker = mk, rtp_ts = ts, hdr = h, pld = b, pld_len = l\<rparr> = b + uint l"
  by (simp add: pld_end_def)

lemma word_pos_of_less:
  fixes a b :: size_t
  assumes "a < b"
  shows "0 < b"
proof -
  have "uint a < uint b" using assms by (simp only: word_less_def)
  then have "uint b \<noteq> 0" using uint_ge_0 [of a] by linarith
  then have "b \<noteq> 0" by (metis uint_0_eq)
  then show ?thesis by (simp add: word_greater_zero_iff)
qed

lemma frag_inv_init:
  assumes "3 < maxlen" "\<not> len \<le> maxlen"
  shows "frag_inv buf len maxlen [h0, h1, fu_byte t] (buf + 2) (len - 2) 0 []"
proof -
  have "maxlen - 3 < len - 2" by (rule unit_len_minus_2(2) [OF assms])
  then have "0 < len - 2" by (rule word_pos_of_less)
  then show ?thesis
    using unit_len_minus_2(1) [OF assms]
    by (simp add: frag_inv_def fu_bits_simps)
qed

lemma frag_inv_step:
  assumes ml: "3 < maxlen" and inv: "frag_inv buf len maxlen fu b l err frs"
    and lt: "maxlen - 3 < l"
  shows "frag_inv buf len maxlen (fu[2 := clear_start (fu ! 2)]) (b + uint (maxlen - 3))
     (l - (maxlen - 3)) (err OR e)
     (frs @ [(\<lparr>marker = False, rtp_ts = ts, hdr = Some fu, pld = b, pld_len = maxlen - 3\<rparr>, e)])"
proof -
  let ?pk = "\<lparr>marker = False, rtp_ts = ts, hdr = Some fu, pld = b, pld_len = maxlen - 3\<rparr>"
  note s = word_sub_less [OF lt]
  have u: "uint (maxlen - 3) < uint l" using lt by (simp only: word_less_def)
  have ge: "0 \<le> uint (maxlen - 3)" by simp
  have f: "length fu = 3" "\<not> fu_end fu" "buf \<le> b" "b + uint l = buf + uint len"
    and old: "\<forall>(pk, c) \<in> set frs. c AND err = c \<and> buf \<le> pld pk \<and> pld_end pk < buf + uint len \<and>
          size_ok maxlen pk \<and> \<not> marker pk"
    using inv by (simp_all add: frag_inv_def)
  have 1: "length (fu[2 := clear_start (fu ! 2)]) = 3" using f(1) by simp
  have 2: "\<not> fu_end (fu[2 := clear_start (fu ! 2)])" using f(1,2) by (simp add: fu_end_update)
  have 3: "buf \<le> b + uint (maxlen - 3)" using f(3) ge by linarith
  have 4: "b + uint (maxlen - 3) + uint (l - (maxlen - 3)) = buf + uint len"
    using s(1) f(4) by simp
  have 5: "\<forall>(pk, c) \<in> set frs. c AND (err OR e) = c \<and> buf \<le> pld pk \<and>
      pld_end pk < buf + uint len \<and> size_ok maxlen pk \<and> \<not> marker pk"
    using old by (auto simp: or_absorb_old)
  have 6: "e AND (err OR e) = e \<and> buf \<le> pld ?pk \<and> pld_end ?pk < buf + uint len \<and>
      size_ok maxlen ?pk \<and> \<not> marker ?pk"
    using f u by (simp add: or_absorb_new size_ok_fragment)
  show ?thesis
    unfolding frag_inv_def using 1 2 3 4 5 6 s(2) by simp
qed

lemma frag_inv_final:
  assumes ml: "3 < maxlen" and inv: "frag_inv buf len maxlen fu b l err frs"
    and le: "l \<le> maxlen - 3" and ok: "\<not> decode_fails m dec buf len maxlen"
  shows "unit_out m dec mk buf len maxlen (err OR e)
     (frs @ [(\<lparr>marker = mk, rtp_ts = ts, hdr = Some (fu[2 := set_end (fu ! 2)]), pld = b,
               pld_len = l\<rparr>, e)])"
proof -
  let ?pk = "\<lparr>marker = mk, rtp_ts = ts, hdr = Some (fu[2 := set_end (fu ! 2)]), pld = b,
      pld_len = l\<rparr>"
  have f: "length fu = 3" "buf \<le> b" "b + uint l = buf + uint len" "0 < l"
    and old: "\<forall>(pk, c) \<in> set frs. c AND err = c \<and> buf \<le> pld pk \<and> pld_end pk < buf + uint len \<and>
          size_ok maxlen pk \<and> \<not> marker pk"
    using inv by (simp_all add: frag_inv_def)
  have 1: "\<forall>(pk, c) \<in> set frs. c AND (err OR e) = c \<and> buf \<le> pld pk \<and>
      pld_end pk \<le> buf + uint len \<and> size_ok maxlen pk \<and> (marker pk \<longrightarrow> mk)"
    using old by (auto simp: or_absorb_old)
  have 2: "e AND (err OR e) = e \<and> buf \<le> pld ?pk \<and> pld_end ?pk \<le> buf + uint len \<and>
      size_ok maxlen ?pk \<and> (marker ?pk \<longrightarrow> mk)"
    using f le by (simp add: or_absorb_new size_ok_last)
  have 3: "\<forall>(pk, c) \<in> set frs. \<not> marker pk \<and> pld_end pk < buf + uint len"
    using old by auto
  show ?thesis
    unfolding unit_out_def using 1 2 3 ok f(3) by simp
qed

lemma unit_out_small:
  assumes "len \<le> maxlen"
  shows "unit_out m dec mk buf len maxlen e
     [(\<lparr>marker = mk, rtp_ts = ts, hdr = None, pld = buf, pld_len = len\<rparr>, e)]"
  using assms by (simp add: unit_out_def size_ok_def pld_end_def decode_fails_def)

lemma packetize_unit:
  assumes ml: "3 < maxlen" and ui: "unit_in m buf len"
  shows "\<exists>x new s'. packetize m dec enc mk buf len maxlen ts (recording f) (log, s)
        = Some (Inr (x, (log @ new, s'))) \<and> unit_out m dec mk buf len maxlen x new"
proof -
  define Q where "Q x st \<longleftrightarrow> (\<exists>new s'. st = (log @ new, s') \<and> unit_out m dec mk buf len maxlen x new)"
    for x and st :: "(packet \<times> c_int) list \<times> 'a"
  define I where "I fu b l err st \<longleftrightarrow> \<not> decode_fails m dec buf len maxlen \<and>
      (\<exists>frs s'. st = (log @ frs, s') \<and> frag_inv buf len maxlen fu b l err frs)"
    for fu b l err and st :: "(packet \<times> c_int) list \<times> 'a"
  have "\<exists>x st'. packetize m dec enc mk buf len maxlen ts (recording f) (log, s)
      = Some (Inr (x, st')) \<and> Q x st'"
  proof (rule packetize_rule [where I = I, OF ml ui])
    fix e st'
    assume le: "len \<le> maxlen" and c:
      "recording f \<lparr>marker = mk, rtp_ts = ts, hdr = None, pld = buf, pld_len = len\<rparr> (log, s)
         = (e, st')"
    from c obtain s2 where
      "st' = (log @ [(\<lparr>marker = mk, rtp_ts = ts, hdr = None, pld = buf, pld_len = len\<rparr>, e)], s2)"
      unfolding recording_call by blast
    then show "Q e st'"
      unfolding Q_def using unit_out_small [OF le] by blast
  next
    fix d nal
    assume "\<not> len \<le> maxlen" "dec (peek m buf) (peek m (buf + 1)) = (d, nal)" "d \<noteq> 0"
    then have "unit_out m dec mk buf len maxlen d []"
      by (simp add: unit_out_def decode_fails_def)
    then have "(log, s) = (log @ [], s) \<and> unit_out m dec mk buf len maxlen d []" by simp
    then show "Q d (log, s)" unfolding Q_def by blast
  next
    fix nal h0 h1
    assume a: "\<not> len \<le> maxlen" "dec (peek m buf) (peek m (buf + 1)) = (0, nal)"
    have "\<not> decode_fails m dec buf len maxlen" using a(2) by (simp add: decode_fails_def)
    moreover have "(log, s) = (log @ [], s) \<and>
        frag_inv buf len maxlen [h0, h1, fu_byte (nal_unit_type nal)] (buf + 2) (len - 2) 0 []"
      using frag_inv_init [OF ml a(1)] by simp
    ultimately show "I [h0, h1, fu_byte (nal_unit_type nal)] (buf + 2) (len - 2) 0 (log, s)"
      unfolding I_def by blast
  next
    fix fu b l err st e st'
    assume i: "I fu b l err st" and lt: "maxlen - 3 < l" and c:
      "recording f \<lparr>marker = False, rtp_ts = ts, hdr = Some fu, pld = b, pld_len = maxlen - 3\<rparr> st
         = (e, st')"
    from i obtain frs s1 where st: "st = (log @ frs, s1)"
      and fi: "frag_inv buf len maxlen fu b l err frs"
      and nf: "\<not> decode_fails m dec buf len maxlen"
      unfolding I_def by blast
    from c obtain s2 where "st' = (log @ (frs @
        [(\<lparr>marker = False, rtp_ts = ts, hdr = Some fu, pld = b, pld_len = maxlen - 3\<rparr>, e)]), s2)"
      unfolding st recording_call by auto
    then show "I (fu[2 := clear_start (fu ! 2)]) (b + uint (maxlen - 3)) (l - (maxlen - 3))
        (err OR e) st'"
      unfolding I_def using frag_inv_step [OF ml fi lt] nf by blast
  next
    fix fu b l err st e st'
    assume i: "I fu b l err st" and le: "l \<le> maxlen - 3" and c:
      "recording f \<lparr>marker = mk, rtp_ts = ts, hdr = Some (fu[2 := set_end (fu ! 2)]), pld = b,
          pld_len = l\<rparr> st = (e, st')"
    from i obtain frs s1 where st: "st = (log @ frs, s1)"
      and fi: "frag_inv buf len maxlen fu b l err frs"
      and nf: "\<not> decode_fails m dec buf len maxlen"
      unfolding I_def by blast
    from c obtain s2 where "st' = (log @ (frs @
        [(\<lparr>marker = mk, rtp_ts = ts, hdr = Some (fu[2 := set_end (fu ! 2)]), pld = b,
            pld_len = l\<rparr>, e)]), s2)"
      unfolding st recording_call by auto
    then show "Q (err OR e) st'"
      unfolding Q_def using frag_inv_final [OF ml fi le nf] by blast
  qed
  then show ?thesis unfolding Q_def by blast
qed


lemma size_ok_fits:
  assumes "3 < maxlen" "size_ok maxlen pk"
  shows "hdr_len pk + unat (pld_len pk) \<le> unat maxlen"
proof (cases "hdr pk")
  case None
  then show ?thesis using assms(2) by (simp add: size_ok_def hdr_len_def word_le_nat_alt)
next
  case (Some h)
  then have h: "length h = 3" "pld_len pk \<le> maxlen - 3"
    using assms(2) by (auto simp: size_ok_def split: if_splits)
  have "uint (pld_len pk) \<le> uint maxlen - 3"
    using h(2) flen_pos(2) [OF assms(1)] by (simp add: word_le_def)
  then have "int (unat (pld_len pk)) + 3 \<le> int (unat maxlen)" by simp
  then have "unat (pld_len pk) + 3 \<le> unat maxlen" by linarith
  then show ?thesis using Some h(1) by (simp add: hdr_len_def)
qed

text \<open>
  The rule for a whole call with the recording handler: an invariant \<open>J\<close> of the position,
  the error code and the packets so far, kept by the packets of every unit, holds at the
  end. The unit after the start code at \<open>q\<close> is \<open>[q + 3, r1)\<close>, and \<open>new\<close> are its packets.
\<close>

lemma h265_packetize_recording_rule:
  assumes ml: "3 < pktsize" and wb: "whole_buffer m buf len"
    and J0: "\<And>r. next_sc m (base m) (mem_end m) r \<Longrightarrow> J r 0 []"
    and step: "\<And>q r1 err log x new. sc_at m q \<Longrightarrow> q < mem_end m - 3 \<Longrightarrow> J q err log \<Longrightarrow>
        next_sc m (q + 3) (mem_end m) r1 \<Longrightarrow>
        unit_out m dec (mem_end m \<le> r1) (q + 3) (word_of_int (r1 - (q + 3))) pktsize x new \<Longrightarrow>
        J r1 (err OR x) (log @ new)"
  shows "\<exists>err log s'. h265_packetize m dec enc ts buf len pktsize (recording f) ([], s)
        = Some (Inr (err, (log, s'))) \<and> J (mem_end m) err log"
proof -
  define K where "K r err st \<longleftrightarrow> (\<exists>log s'. st = (log, s') \<and> J r err log)"
    for r err and st :: "(packet \<times> c_int) list \<times> 'a"
  have "\<exists>err' st'. h265_packetize m dec enc ts buf len pktsize (recording f) ([], s)
      = Some (Inr (err', st')) \<and> K (mem_end m) err' st'"
  proof (rule h265_packetize_rule [OF wb])
    fix r assume "next_sc m (base m) (mem_end m) r"
    then have "J r 0 []" by (rule J0)
    then show "K r 0 ([], s)" unfolding K_def by blast
  next
    fix q r1 err st
    assume a: "sc_at m q" "q < mem_end m - 3" and k: "K q err st"
      and n: "next_sc m (q + 3) (mem_end m) r1"
    from k obtain log s1 where st: "st = (log, s1)" and j: "J q err log"
      unfolding K_def by blast
    from packetize_unit [where dec = dec and enc = enc and mk = "mem_end m \<le> r1" and ts = ts
        and f = f and log = log and s = s1, OF ml unit_of_sc(4) [OF wb a n]]
    obtain x new s2 where
      p: "packetize m dec enc (mem_end m \<le> r1) (q + 3) (word_of_int (r1 - (q + 3))) pktsize ts
            (recording f) (log, s1) = Some (Inr (x, (log @ new, s2)))"
      and u: "unit_out m dec (mem_end m \<le> r1) (q + 3) (word_of_int (r1 - (q + 3))) pktsize x new"
      by blast
    have "J r1 (err OR x) (log @ new)" by (rule step [OF a j n u])
    then have "K r1 (err OR x) (log @ new, s2)" unfolding K_def by blast
    then show "\<exists>x st'. packetize m dec enc (mem_end m \<le> r1) (q + 3) (word_of_int (r1 - (q + 3)))
        pktsize ts (recording f) st = Some (Inr (x, st')) \<and> K r1 (err OR x) st'"
      using p unfolding st by blast
  qed
  then show ?thesis unfolding K_def by blast
qed

section \<open>Slices of the buffer\<close>

lemma mem_slice_append:
  assumes "base m \<le> p"
  shows "mem_slice m p a @ mem_slice m (p + int a) b = mem_slice m p (a + b)"
proof -
  have "nat (p + int a - base m) = nat (p - base m) + a" using assms by simp
  then show ?thesis
    by (simp add: mem_slice_def take_add add.commute)
qed

lemma mem_slice_drop:
  assumes "base m \<le> p"
  shows "drop k (mem_slice m p n) = mem_slice m (p + int k) (n - k)"
proof -
  have "nat (p + int k - base m) = nat (p - base m) + k" using assms by simp
  then show ?thesis
    by (simp add: mem_slice_def drop_take add.commute)
qed

lemma nat_plus_unat: "0 \<le> k \<Longrightarrow> nat k + unat w = nat (k + uint w)"
  by (simp add: nat_add_distrib)

section \<open>A buffer with one unit\<close>

text \<open>
  When the first start code of the buffer is at \<open>q\<close> and no other follows it, a call of
  \<^verbatim>\<open>h265_packetize\<close> is one call of \<^verbatim>\<open>packetize\<close>, with the marker, on the bytes
  from \<open>q + 3\<close> to the end.
\<close>

lemma single_unit_call:
  assumes wb: "whole_buffer m buf len"
    and sc: "sc_at m q" and q: "q < mem_end m - 3"
    and before: "no_sc m (base m) q" and after: "no_sc m (q + 3) (mem_end m - 3)"
    and p: "packetize m dec enc True (q + 3) (word_of_int (mem_end m - (q + 3))) pktsize ts pkth s
              = Some (Inr (x, s'))"
  shows "h265_packetize m dec enc ts buf len pktsize pkth s = Some (Inr (x, s'))"
proof -
  let ?e = "mem_end m"
  have b: "buf = base m" "base m + uint len = ?e"
    using wb by (simp_all add: whole_buffer_def mem_end_def)
  have bq: "base m \<le> q" using sc by (simp add: sc_at_def)
  have "next_sc m (base m) ?e q"
    using sc q before bq by (simp add: next_sc_def)
  then have f1: "h265_find_startcode m (base m) ?e = Inr q"
    by (intro find_startcode_eq) simp_all
  have "next_sc m (q + 3) ?e ?e" using after by (simp add: next_sc_def)
  then have f2: "h265_find_startcode m (q + 3) ?e = Inr ?e"
    using bq by (intro find_startcode_eq) simp_all
  have lt: "q < ?e" using q by simp
  have stop: "nal_loop m dec enc ts ?e pktsize pkth ?e (0 OR x) s' = Some (Inr (x, s'))"
    by (subst nal_loop.simps) simp
  have "nal_loop m dec enc ts ?e pktsize pkth q 0 s = Some (Inr (x, s'))"
    by (subst nal_loop.simps)
       (simp only: lt if_True skip_zeros_sc [OF sc] f2 order_refl p stop sum.case option.case
          prod.case)
  then show ?thesis
    by (simp add: h265_packetize_def Let_def b f1)
qed

section \<open>The scenario of a unit of 4000 payload bytes\<close>

lemma fu3_update: "[a, b, c][2 := v] = [a, b, v]" "[a, b, c] ! 2 = c"
  by (simp_all add: numeral_2_eq_2)

lemma fu_loop_round:
  assumes "flen < l"
    and "f \<lparr>marker = False, rtp_ts = ts, hdr = Some [a, b, x], pld = buf, pld_len = flen\<rparr> s
           = (c, s')"
    and "buf + uint flen = buf'" and "l - flen = l'"
  shows "fu_loop (recording f) ts flen [a, b, x] buf l err (log, s) =
     fu_loop (recording f) ts flen [a, b, clear_start x] buf' l' (err OR c)
       (log @ [(\<lparr>marker = False, rtp_ts = ts, hdr = Some [a, b, x], pld = buf,
                  pld_len = flen\<rparr>, c)], s')"
  by (subst fu_loop.simps) (simp add: assms recording_def fu3_update)

lemma fu_loop_done:
  assumes "\<not> flen < l"
  shows "fu_loop pkth ts flen fu buf l err st = Some (fu, buf, l, err, st)"
  by (subst fu_loop.simps) (simp add: assms)

text \<open>Four fragments of 997 bytes leave 12 of 4000 bytes.\<close>

lemma fu_loop_4000:
  assumes c1: "f \<lparr>marker = False, rtp_ts = ts, hdr = Some [a, b, x], pld = buf, pld_len = 997\<rparr> s
      = (c1, s1)"
    and c2: "f \<lparr>marker = False, rtp_ts = ts, hdr = Some [a, b, clear_start x], pld = buf + 997,
      pld_len = 997\<rparr> s1 = (c2, s2)"
    and c3: "f \<lparr>marker = False, rtp_ts = ts, hdr = Some [a, b, clear_start (clear_start x)],
      pld = buf + 1994, pld_len = 997\<rparr> s2 = (c3, s3)"
    and c4: "f \<lparr>marker = False, rtp_ts = ts,
      hdr = Some [a, b, clear_start (clear_start (clear_start x))],
      pld = buf + 2991, pld_len = 997\<rparr> s3 = (c4, s4)"
  shows "fu_loop (recording f) ts 997 [a, b, x] buf 4000 err (log, s) =
     Some ([a, b, clear_start (clear_start (clear_start (clear_start x)))], buf + 3988, 12,
       (((err OR c1) OR c2) OR c3) OR c4,
       ((((log @
        [(\<lparr>marker = False, rtp_ts = ts, hdr = Some [a, b, x], pld = buf, pld_len = 997\<rparr>, c1)]) @
        [(\<lparr>marker = False, rtp_ts = ts, hdr = Some [a, b, clear_start x], pld = buf + 997,
            pld_len = 997\<rparr>, c2)]) @
        [(\<lparr>marker = False, rtp_ts = ts, hdr = Some [a, b, clear_start (clear_start x)],
            pld = buf + 1994, pld_len = 997\<rparr>, c3)]) @
        [(\<lparr>marker = False, rtp_ts = ts,
            hdr = Some [a, b, clear_start (clear_start (clear_start x))],
            pld = buf + 2991, pld_len = 997\<rparr>, c4)], s4))"
proof -
  have r1: "fu_loop (recording f) ts 997 [a, b, x] buf 4000 err (log, s) =
      fu_loop (recording f) ts 997 [a, b, clear_start x] (buf + 997) 3003 (err OR c1)
        (log @ [(\<lparr>marker = False, rtp_ts = ts, hdr = Some [a, b, x], pld = buf,
                   pld_len = 997\<rparr>, c1)], s1)" for log
    by (rule fu_loop_round [where f = f, OF _ c1]) simp_all
  have r2: "fu_loop (recording f) ts 997 [a, b, clear_start x] (buf + 997) 3003 err (log, s1) =
      fu_loop (recording f) ts 997 [a, b, clear_start (clear_start x)] (buf + 1994) 2006
        (err OR c2)
        (log @ [(\<lparr>marker = False, rtp_ts = ts, hdr = Some [a, b, clear_start x],
                   pld = buf + 997, pld_len = 997\<rparr>, c2)], s2)" for err log
    by (rule fu_loop_round [where f = f, OF _ c2]) simp_all
  have r3: "fu_loop (recording f) ts 997 [a, b, clear_start (clear_start x)] (buf + 1994) 2006
        err (log, s2) =
      fu_loop (recording f) ts 997 [a, b, clear_start (clear_start (clear_start x))]
        (buf + 2991) 1009 (err OR c3)
        (log @ [(\<lparr>marker = False, rtp_ts = ts, hdr = Some [a, b, clear_start (clear_start x)],
                   pld = buf + 1994, pld_len = 997\<rparr>, c3)], s3)" for err log
    by (rule fu_loop_round [where f = f, OF _ c3]) simp_all
  have r4: "fu_loop (recording f) ts 997 [a, b, clear_start (clear_start (clear_start x))]
        (buf + 2991) 1009 err (log, s3) =
      fu_loop (recording f) ts 997
        [a, b, clear_start (clear_start (clear_start (clear_start x)))]
        (buf + 3988) 12 (err OR c4)
        (log @ [(\<lparr>marker = False, rtp_ts = ts,
                   hdr = Some [a, b, clear_start (clear_start (clear_start x))],
                   pld = buf + 2991, pld_len = 997\<rparr>, c4)], s4)" for err log
    by (rule fu_loop_round [where f = f, OF _ c4]) simp_all
  have r5: "fu_loop (recording f) ts 997 fu (buf + 3988) 12 err st
      = Some (fu, buf + 3988, 12, err, st)" for fu err st
    by (rule fu_loop_done) simp
  show ?thesis
    by (simp only: r1 r2 r3 r4 r5)
qed


text \<open>
  The buffer of the scenario: a start code of four bytes, the two header bytes \<open>h0\<close> and
  \<open>h1\<close>, and the payload \<open>pl\<close>.
\<close>

definition unit_buffer :: "ptr \<Rightarrow> bool \<Rightarrow> byte \<Rightarrow> byte \<Rightarrow> byte list \<Rightarrow> mem" where
  "unit_buffer b be h0 h1 pl = \<lparr>base = b, bytes = [0, 0, 0, 1, h0, h1] @ pl, big_endian = be\<rparr>"

lemma unit_buffer_call:
  fixes f :: "'s videnc_packet_h"
  assumes len: "length pl = 4000"
    and single: "no_sc (unit_buffer b be h0 h1 pl) (b + 4) (mem_end (unit_buffer b be h0 h1 pl))"
    and d: "dec h0 h1 = (0, nal)"
    and en: "enc H265_NAL_FU (ucast (nuh_temporal_id_plus1 nal)) = (e0, e1)"
    and x: "x = fu_byte (nal_unit_type nal)"
    and c1: "f \<lparr>marker = False, rtp_ts = ts, hdr = Some [e0, e1, x], pld = b + 6, pld_len = 997\<rparr> s
      = (c1, s1)"
    and c2: "f \<lparr>marker = False, rtp_ts = ts, hdr = Some [e0, e1, clear_start x], pld = b + 1003,
      pld_len = 997\<rparr> s1 = (c2, s2)"
    and c3: "f \<lparr>marker = False, rtp_ts = ts, hdr = Some [e0, e1, clear_start (clear_start x)],
      pld = b + 2000, pld_len = 997\<rparr> s2 = (c3, s3)"
    and c4: "f \<lparr>marker = False, rtp_ts = ts,
      hdr = Some [e0, e1, clear_start (clear_start (clear_start x))],
      pld = b + 2997, pld_len = 997\<rparr> s3 = (c4, s4)"
    and c5: "f \<lparr>marker = True, rtp_ts = ts,
      hdr = Some [e0, e1, set_end (clear_start (clear_start (clear_start (clear_start x))))],
      pld = b + 3994, pld_len = 12\<rparr> s4 = (c5, s5)"
  shows "h265_packetize (unit_buffer b be h0 h1 pl) dec enc ts b 4006 1000 (recording f) ([], s) =
     Some (Inr (((((0 OR c1) OR c2) OR c3) OR c4) OR c5,
       ([(\<lparr>marker = False, rtp_ts = ts, hdr = Some [e0, e1, x], pld = b + 6, pld_len = 997\<rparr>, c1),
         (\<lparr>marker = False, rtp_ts = ts, hdr = Some [e0, e1, clear_start x], pld = b + 1003,
            pld_len = 997\<rparr>, c2),
         (\<lparr>marker = False, rtp_ts = ts, hdr = Some [e0, e1, clear_start (clear_start x)],
            pld = b + 2000, pld_len = 997\<rparr>, c3),
         (\<lparr>marker = False, rtp_ts = ts,
            hdr = Some [e0, e1, clear_start (clear_start (clear_start x))],
            pld = b + 2997, pld_len = 997\<rparr>, c4),
         (\<lparr>marker = True, rtp_ts = ts,
            hdr = Some [e0, e1, set_end (clear_start (clear_start (clear_start (clear_start x))))],
            pld = b + 3994, pld_len = 12\<rparr>, c5)], s5)))"
proof -
  let ?m = "unit_buffer b be h0 h1 pl"
  have e: "mem_end ?m = b + 4006" and bs: "base ?m = b"
    by (simp_all add: mem_end_def unit_buffer_def len)
  have wb: "whole_buffer ?m b 4006" by (simp add: whole_buffer_def unit_buffer_def len)
  have pk: "peek ?m (b + 1) = 0" "peek ?m (b + 2) = 0" "peek ?m (b + 3) = 1"
    "peek ?m (b + 4) = h0" "peek ?m (b + 5) = h1"
    by (simp_all add: peek_def unit_buffer_def)
  have sc: "sc_at ?m (b + 1)"
    unfolding sc_at_def e bs by (simp add: peek_def unit_buffer_def)
  have q: "b + 1 < mem_end ?m - 3" by (simp add: e)
  have "\<not> sc_at ?m b" unfolding sc_at_def by (simp add: peek_def unit_buffer_def)
  then have before: "no_sc ?m (base ?m) (b + 1)"
    using no_sc_unfold(1) [of ?m b] by (simp add: bs)
  have a13: "b + 1 + 3 = b + 4" by simp
  have after: "no_sc ?m (b + 1 + 3) (mem_end ?m - 3)"
    unfolding a13 by (rule no_sc_mono [OF single]) simp_all
  have l: "(word_of_int (mem_end ?m - (b + 1 + 3)) :: size_t) = 4002" by (simp add: e)
  have ml: "(3 :: size_t) < 1000" and big: "\<not> (4002 :: size_t) \<le> 1000" by simp_all
  have ui: "unit_in ?m (b + 4) 4002" by (simp add: unit_in_def e bs)
  have a41: "b + 4 + 1 = b + 5" by simp
  have d': "dec (peek ?m (b + 4)) (peek ?m (b + 4 + 1)) = (0, nal)"
    unfolding a41 pk(4,5) by (rule d)
  have pp: "b + 6 + 997 = b + 1003" "b + 6 + 1994 = b + 2000" "b + 6 + 2991 = b + 2997"
    "b + 6 + 3988 = b + 3994"
    by simp_all
  have aa: "b + 4 + 2 = b + 6" "(1000 :: size_t) - 3 = 997" "(4002 :: size_t) - 2 = 4000"
    by simp_all
  note fl_clean = fu_loop_4000 [where f = f and buf = "b + 6" and err = 0 and log = "[]",
      OF c1 c2 [folded pp] c3 [folded pp] c4 [folded pp], unfolded pp]
  have fl: "fu_loop (recording f) ts (1000 - 3) [e0, e1, fu_byte (nal_unit_type nal)]
      (b + 4 + 2) (4002 - 2) 0 ([], s) =
     Some ([e0, e1, clear_start (clear_start (clear_start (clear_start x)))], b + 3994, 12,
       (((0 OR c1) OR c2) OR c3) OR c4,
       (((([] @
        [(\<lparr>marker = False, rtp_ts = ts, hdr = Some [e0, e1, x], pld = b + 6, pld_len = 997\<rparr>, c1)]) @
        [(\<lparr>marker = False, rtp_ts = ts, hdr = Some [e0, e1, clear_start x], pld = b + 1003,
            pld_len = 997\<rparr>, c2)]) @
        [(\<lparr>marker = False, rtp_ts = ts, hdr = Some [e0, e1, clear_start (clear_start x)],
            pld = b + 2000, pld_len = 997\<rparr>, c3)]) @
        [(\<lparr>marker = False, rtp_ts = ts,
            hdr = Some [e0, e1, clear_start (clear_start (clear_start x))],
            pld = b + 2997, pld_len = 997\<rparr>, c4)], s4))"
    unfolding aa x [symmetric] by (rule fl_clean)
  have fin: "recording f \<lparr>marker = True, rtp_ts = ts,
        hdr = Some ([e0, e1, clear_start (clear_start (clear_start (clear_start x)))]
          [2 := set_end ([e0, e1, clear_start (clear_start (clear_start (clear_start x)))] ! 2)]),
        pld = b + 3994, pld_len = 12\<rparr>
      (((([] @
        [(\<lparr>marker = False, rtp_ts = ts, hdr = Some [e0, e1, x], pld = b + 6, pld_len = 997\<rparr>, c1)]) @
        [(\<lparr>marker = False, rtp_ts = ts, hdr = Some [e0, e1, clear_start x], pld = b + 1003,
            pld_len = 997\<rparr>, c2)]) @
        [(\<lparr>marker = False, rtp_ts = ts, hdr = Some [e0, e1, clear_start (clear_start x)],
            pld = b + 2000, pld_len = 997\<rparr>, c3)]) @
        [(\<lparr>marker = False, rtp_ts = ts,
            hdr = Some [e0, e1, clear_start (clear_start (clear_start x))],
            pld = b + 2997, pld_len = 997\<rparr>, c4)], s4)
      = (c5,
       ([(\<lparr>marker = False, rtp_ts = ts, hdr = Some [e0, e1, x], pld = b + 6, pld_len = 997\<rparr>, c1),
         (\<lparr>marker = False, rtp_ts = ts, hdr = Some [e0, e1, clear_start x], pld = b + 1003,
            pld_len = 997\<rparr>, c2),
         (\<lparr>marker = False, rtp_ts = ts, hdr = Some [e0, e1, clear_start (clear_start x)],
            pld = b + 2000, pld_len = 997\<rparr>, c3),
         (\<lparr>marker = False, rtp_ts = ts,
            hdr = Some [e0, e1, clear_start (clear_start (clear_start x))],
            pld = b + 2997, pld_len = 997\<rparr>, c4),
         (\<lparr>marker = True, rtp_ts = ts,
            hdr = Some [e0, e1, set_end (clear_start (clear_start (clear_start (clear_start x))))],
            pld = b + 3994, pld_len = 12\<rparr>, c5)], s5))"
    by (simp add: recording_def fu3_update c5)
  have p: "packetize ?m dec enc True (b + 1 + 3) (word_of_int (mem_end ?m - (b + 1 + 3))) 1000 ts
      (recording f) ([], s) = Some (Inr (((((0 OR c1) OR c2) OR c3) OR c4) OR c5,
       ([(\<lparr>marker = False, rtp_ts = ts, hdr = Some [e0, e1, x], pld = b + 6, pld_len = 997\<rparr>, c1),
         (\<lparr>marker = False, rtp_ts = ts, hdr = Some [e0, e1, clear_start x], pld = b + 1003,
            pld_len = 997\<rparr>, c2),
         (\<lparr>marker = False, rtp_ts = ts, hdr = Some [e0, e1, clear_start (clear_start x)],
            pld = b + 2000, pld_len = 997\<rparr>, c3),
         (\<lparr>marker = False, rtp_ts = ts,
            hdr = Some [e0, e1, clear_start (clear_start (clear_start x))],
            pld = b + 2997, pld_len = 997\<rparr>, c4),
         (\<lparr>marker = True, rtp_ts = ts,
            hdr = Some [e0, e1, set_end (clear_start (clear_start (clear_start (clear_start x))))],
            pld = b + 3994, pld_len = 12\<rparr>, c5)], s5)))"
  proof -
    have l4: "(word_of_int (mem_end ?m - (b + 4)) :: size_t) = 4002" by (simp add: e)
    show ?thesis
      unfolding a13 l4
      by (rule packetize_fragment [where pkth = "recording f" and dec = dec and enc = enc,
            OF ml big ui d' en fl fin])
  qed
  show ?thesis
    by (rule single_unit_call [OF wb sc q before after p])
qed

lemma unit_buffer_no_sc:
  assumes "h0 \<noteq> 0" "h1 \<noteq> 0" "0 \<notin> set pl"
  shows "no_sc (unit_buffer b be h0 h1 pl) (b + 4) hi"
  unfolding no_sc_def
proof
  fix q assume q: "q \<in> {b + 4 ..< hi}"
  let ?m = "unit_buffer b be h0 h1 pl"
  show "\<not> sc_at ?m q"
  proof
    assume sc: "sc_at ?m q"
    define i where "i = nat (q - b)"
    have s1: "q + 2 < mem_end ?m" "peek ?m q = 0" using sc by (simp_all add: sc_at_def)
    have e: "mem_end ?m = b + 6 + int (length pl)" by (simp add: mem_end_def unit_buffer_def)
    have i: "4 \<le> i" "i < 6 + length pl"
      using q s1(1) unfolding e i_def by auto
    have "peek ?m q = ([0, 0, 0, 1, h0, h1] @ pl) ! i"
      unfolding peek_def unit_buffer_def i_def by (simp only: mem.simps)
    then have z: "([0, 0, 0, 1, h0, h1] @ pl) ! i = 0" using s1(2) by simp
    consider "i = 4" | "i = 5" | "6 \<le> i" using i(1) by linarith
    then show False
    proof cases
      case 1 then show False using z assms(1) by simp
    next
      case 2 then show False using z assms(2) by simp
    next
      case 3
      have l6: "length [0, 0, 0, 1, h0, h1] = 6" by simp
      have "([0, 0, 0, 1, h0, h1] @ pl) ! i = pl ! (i - 6)"
        using 3 unfolding nth_append l6 by simp
      moreover have "pl ! (i - 6) \<in> set pl" using 3 i(2) by (intro nth_mem) simp
      ultimately show False using z assms(3) by metis
    qed
  qed
qed

section \<open>The units of a buffer\<close>

text \<open>
  A unit of the buffer, said on the buffer itself: it begins at \<open>u\<close>, right after a start
  code that has at least one byte after it, and ends at \<open>u1\<close>, the next such start code
  or the end of the buffer.
\<close>

definition nal_unit :: "mem \<Rightarrow> ptr \<Rightarrow> ptr \<Rightarrow> bool" where
  "nal_unit m u u1 = (sc_at m (u - 3) \<and> u < mem_end m \<and> next_sc m u (mem_end m) u1)"

lemma next_sc_first:
  assumes "next_sc m p e r" "sc_at m q" "p \<le> q" "q < e - 3"
  shows "r \<le> q"
proof (cases "r = e")
  case True
  then have "no_sc m p (e - 3)" using assms(1) by (simp add: next_sc_def)
  then show ?thesis using assms(2-4) by (auto simp: no_sc_def)
next
  case False
  then have "no_sc m p r" using assms(1) by (simp add: next_sc_def)
  then show ?thesis using assms(2,3) by (fastforce simp: no_sc_def)
qed

lemma nal_unit_cases:
  assumes u: "nal_unit m u u1" and le: "u1 \<le> r1"
    and sc: "sc_at m q" and q: "q < mem_end m - 3" and nx: "next_sc m (q + 3) (mem_end m) r1"
  shows "u1 \<le> q \<or> (u = q + 3 \<and> u1 = r1)"
proof -
  have p: "sc_at m (u - 3)" "u < mem_end m" "next_sc m u (mem_end m) u1"
    using u by (simp_all add: nal_unit_def)
  have uu: "u \<le> u1" using next_sc_ge [OF p(3)] p(2) by simp
  consider "u - 3 < q" | "u - 3 = q" | "q < u - 3" by linarith
  then show ?thesis
  proof cases
    case 1
    then have "u \<le> q" using sc_at_distance [OF p(1) sc] by simp
    then have "u1 \<le> q" using next_sc_first [OF p(3) sc] q by simp
    then show ?thesis by simp
  next
    case 2
    then have "u = q + 3" by simp
    moreover have "u1 = r1" using p(3) nx unfolding calculation by (rule next_sc_unique)
    ultimately show ?thesis by simp
  next
    case 3
    then have "q + 3 \<le> u - 3" using sc_at_distance [OF sc p(1)] by simp
    moreover have "u - 3 < mem_end m - 3" using p(2) by simp
    ultimately have "r1 \<le> u - 3" using next_sc_first [OF nx p(1)] by simp
    then show ?thesis using uu le by simp
  qed
qed

lemma nal_unit_after_first:
  assumes u: "nal_unit m u u1" and nx: "next_sc m (base m) (mem_end m) r"
  shows "r < u1"
proof -
  have p: "sc_at m (u - 3)" "u < mem_end m" "next_sc m u (mem_end m) u1"
    using u by (simp_all add: nal_unit_def)
  have "base m \<le> u - 3" using p(1) by (simp add: sc_at_def)
  moreover have "u - 3 < mem_end m - 3" using p(2) by simp
  ultimately have "r \<le> u - 3" using next_sc_first [OF nx p(1)] by simp
  moreover have "u \<le> u1" using next_sc_ge [OF p(3)] p(2) by simp
  ultimately show ?thesis by simp
qed





section \<open>Units that fit in one packet\<close>









section \<open>Claims about the scanner\<close>

text \<open>
  C1 (as stated, it fails). The claim reads: a sequence \<open>00 00 01\<close> that lies at or after
  \<open>pos\<close> inside the buffer is found. The scanner compares its pointer with
  \<^verbatim>\<open>end - 3\<close>, so it never tests the position \<open>end - 3\<close>: in the three-byte buffer
  \<open>00 00 01\<close> the sequence lies at position 0, all of it inside the buffer, and the
  scanner returns the end of the buffer.
\<close>

theorem find_startcode_tail_counterexample:
  "sc_at \<lparr>base = 0, bytes = [0, 0, 1], big_endian = False\<rparr> 0 \<and>
   0 + 3 \<le> mem_end \<lparr>base = 0, bytes = [0, 0, 1], big_endian = False\<rparr> \<and>
   h265_find_startcode \<lparr>base = 0, bytes = [0, 0, 1], big_endian = False\<rparr> 0
       (mem_end \<lparr>base = 0, bytes = [0, 0, 1], big_endian = False\<rparr>)
     = Inr (mem_end \<lparr>base = 0, bytes = [0, 0, 1], big_endian = False\<rparr>)"
  by code_simp

text \<open>
  C1 (amended). For every buffer, at every address and in both byte orders, and every
  start position \<open>p\<close> not before the buffer: if a sequence \<open>00 00 01\<close> begins at some
  \<open>q\<close> with \<open>p \<le> q < end - 3\<close> (at least one more byte of the buffer follows it), then
  \<^verbatim>\<open>h265_find_startcode\<close> returns the first such position; otherwise it returns exactly
  the end of the buffer.
\<close>

theorem find_startcode_first:
  assumes "base m \<le> p"
  shows "\<exists>r. h265_find_startcode m p (mem_end m) = Inr r \<and>
     (if \<exists>q \<in> {p ..< mem_end m - 3}. sc_at m q
      then r \<in> {p ..< mem_end m - 3} \<and> sc_at m r \<and> (\<forall>q \<in> {p ..< r}. \<not> sc_at m q)
      else r = mem_end m)"
proof -
  obtain r where r: "h265_find_startcode m p (mem_end m) = Inr r" "next_sc m p (mem_end m) r"
    using find_startcode_spec [OF assms, of "mem_end m"] by auto
  show ?thesis
  proof (cases "r = mem_end m")
    case True
    then have "no_sc m p (mem_end m - 3)" using r(2) by (simp add: next_sc_def)
    then show ?thesis using r(1) True by (auto simp: no_sc_def)
  next
    case False
    then have "p \<le> r" "r < mem_end m - 3" "sc_at m r" "no_sc m p r"
      using r(2) by (simp_all add: next_sc_def)
    then show ?thesis using r(1) False by (auto simp: no_sc_def)
  qed
qed

theorem find_startcode_first_witness:
  "base \<lparr>base = 5, bytes = [9, 0, 0, 1, 7, 0, 0, 1, 3], big_endian = True\<rparr> \<le> 7 \<and>
   h265_find_startcode \<lparr>base = 5, bytes = [9, 0, 0, 1, 7, 0, 0, 1, 3], big_endian = True\<rparr> 7
     (mem_end \<lparr>base = 5, bytes = [9, 0, 0, 1, 7, 0, 0, 1, 3], big_endian = True\<rparr>) = Inr 10 \<and>
   sc_at \<lparr>base = 5, bytes = [9, 0, 0, 1, 7, 0, 0, 1, 3], big_endian = True\<rparr> 10"
proof -
  let ?m = "\<lparr>base = 5, bytes = [9, 0, 0, 1, 7, 0, 0, 1, 3], big_endian = True\<rparr>"
  have b: "base ?m \<le> 7" by simp
  have s: "sc_at ?m 10" by code_simp
  have e: "mem_end ?m = 14" by (simp add: mem_end_def)
  have x: "\<exists>q \<in> {7 ..< mem_end ?m - 3}. sc_at ?m q"
    using s unfolding e by (intro bexI [of _ 10]) simp_all
  have n: "\<not> sc_at ?m 7" "\<not> sc_at ?m 8" "\<not> sc_at ?m 9" by code_simp+
  from find_startcode_first [OF b] x
  obtain r where r: "h265_find_startcode ?m 7 (mem_end ?m) = Inr r"
    "r \<in> {7 ..< mem_end ?m - 3}" "sc_at ?m r" by auto
  have "r = 7 \<or> r = 8 \<or> r = 9 \<or> r = 10" using r(2) unfolding e by auto
  then have "r = 10" using r(3) n by auto
  then show ?thesis using r(1) b s by simp
qed

text \<open>
  C2. For every buffer, at every address and in both byte orders, and every start position
  not before the buffer, \<^verbatim>\<open>h265_find_startcode\<close> ends without a fault: none of its
  reads, in any of its three loops, falls outside \<open>[base, mem_end)\<close>, and every word it
  loads is aligned. For a buffer shorter than three bytes, and for a buffer with no start
  code at or after the start position, it returns the end of the buffer.
\<close>

theorem find_startcode_reads_in_bounds:
  assumes "base m \<le> p"
  shows "(\<exists>r. h265_find_startcode m p (mem_end m) = Inr r) \<and>
     (length (bytes m) < 3 \<longrightarrow> h265_find_startcode m p (mem_end m) = Inr (mem_end m)) \<and>
     (no_sc m p (mem_end m) \<longrightarrow> h265_find_startcode m p (mem_end m) = Inr (mem_end m))"
proof -
  obtain r where r: "h265_find_startcode m p (mem_end m) = Inr r" "next_sc m p (mem_end m) r"
    using find_startcode_spec [OF assms, of "mem_end m"] by auto
  have "r = mem_end m" if "length (bytes m) < 3"
  proof (rule ccontr)
    assume "r \<noteq> mem_end m"
    then have "p \<le> r" "r < mem_end m - 3" using r(2) by (simp_all add: next_sc_def)
    then show False using assms that by (simp add: mem_end_def)
  qed
  moreover have "r = mem_end m" if "no_sc m p (mem_end m)"
  proof (rule ccontr)
    assume "r \<noteq> mem_end m"
    then have "p \<le> r" "r < mem_end m - 3" "sc_at m r" using r(2) by (simp_all add: next_sc_def)
    then show False using that by (auto simp: no_sc_def)
  qed
  ultimately show ?thesis using r(1) by auto
qed

theorem find_startcode_reads_in_bounds_witness:
  "base \<lparr>base = 1, bytes = [0, 0], big_endian = False\<rparr> \<le> 1 \<and>
   length (bytes \<lparr>base = 1, bytes = [0, 0], big_endian = False\<rparr>) < 3 \<and>
   h265_find_startcode \<lparr>base = 1, bytes = [0, 0], big_endian = False\<rparr> 1
     (mem_end \<lparr>base = 1, bytes = [0, 0], big_endian = False\<rparr>) = Inr 3"
proof -
  let ?m = "\<lparr>base = 1, bytes = [0, 0], big_endian = False\<rparr>"
  have b: "base ?m \<le> 1" by simp
  have l: "length (bytes ?m) < 3" by simp
  have e: "mem_end ?m = 3" by (simp add: mem_end_def)
  from find_startcode_reads_in_bounds [OF b] l
  have "h265_find_startcode ?m 1 (mem_end ?m) = Inr (mem_end ?m)" by blast
  then show ?thesis using b l e by simp
qed

section \<open>Claim about the start-code prefix\<close>

text \<open>
  C7 (as stated, it fails). The claim reads: a prefix \<open>00 00 01\<close> is skipped, and with
  fewer than 4 bytes left the 3-byte form can still be detected. The function returns at
  once when fewer than 4 bytes are left: on the three bytes \<open>00 00 01\<close> it leaves the
  position and the length as they are (while \<^verbatim>\<open>h265_have_startcode\<close> reports a start
  code there).
\<close>

theorem skip_startcode_short_counterexample:
  "mem_slice \<lparr>base = 0, bytes = [0, 0, 1], big_endian = False\<rparr> 0 3 = sc3 \<and>
   h265_skip_startcode \<lparr>base = 0, bytes = [0, 0, 1], big_endian = False\<rparr> (0, 3) = Inr (0, 3) \<and>
   h265_have_startcode \<lparr>base = 0, bytes = [0, 0, 1], big_endian = False\<rparr> 0 3 = Inr True"
  by code_simp

text \<open>
  C7 (amended). Let \<open>n\<close> bytes of the buffer remain at \<open>p\<close>. When at least 4 bytes
  remain and they begin \<open>00 00 00 01\<close>, \<^verbatim>\<open>h265_skip_startcode\<close> advances by 4 (this form
  is tested first); when at least 4 bytes remain and they begin \<open>00 00 01\<close>, it advances
  by 3; in every other case, so whenever fewer than 4 bytes remain, the position and the
  remaining length are unchanged.
\<close>

theorem skip_startcode_cases:
  assumes "base m \<le> p" "p + uint n \<le> mem_end m"
  shows "h265_skip_startcode m (p, n) =
     Inr (if 4 \<le> n \<and> mem_slice m p 4 = sc4 then (p + 4, n - 4)
          else if 4 \<le> n \<and> mem_slice m p 3 = sc3 then (p + 3, n - 3)
          else (p, n))"
proof (cases "n < 4")
  case True
  then have "\<not> 4 \<le> n" by (simp add: not_le)
  then show ?thesis using True by (simp add: h265_skip_startcode_def)
next
  case False
  then have n4: "4 \<le> n" by (simp add: not_less)
  then have "uint (4 :: size_t) \<le> uint n" by (simp only: word_le_def)
  then have "4 \<le> uint n" by simp
  then have ib: "p + 4 \<le> mem_end m" "p + 3 \<le> mem_end m" using assms(2) by linarith+
  have l: "length sc4 = 4" "length sc3 = 3" by (simp_all add: sc4_def sc3_def)
  have c4: "memcmp0 m p sc4 = Inr (mem_slice m p 4 = sc4)"
    using assms(1) ib unfolding memcmp0_def l by simp
  have c3: "memcmp0 m p sc3 = Inr (mem_slice m p 3 = sc3)"
    using assms(1) ib unfolding memcmp0_def l by simp
  show ?thesis
    using False n4 by (simp add: h265_skip_startcode_def c4 c3 sbind_def)
qed

theorem skip_startcode_cases_witness:
  "base \<lparr>base = 8, bytes = [0, 0, 0, 1, 64], big_endian = False\<rparr> \<le> 8 \<and>
   8 + uint (5 :: size_t) \<le> mem_end \<lparr>base = 8, bytes = [0, 0, 0, 1, 64], big_endian = False\<rparr> \<and>
   h265_skip_startcode \<lparr>base = 8, bytes = [0, 0, 0, 1, 64], big_endian = False\<rparr> (8, 5) = Inr (12, 1)"
proof -
  let ?m = "\<lparr>base = 8, bytes = [0, 0, 0, 1, 64], big_endian = False\<rparr>"
  have b: "base ?m \<le> 8" by simp
  have e: "8 + uint (5 :: size_t) \<le> mem_end ?m" by (simp add: mem_end_def)
  have s: "mem_slice ?m 8 4 = sc4" by (simp add: mem_slice_def sc4_def)
  show ?thesis
    using skip_startcode_cases [OF b e] b e s by simp
qed

section \<open>Claims about the packetizer\<close>

text \<open>
  C9. For every buffer (at every address, in both byte orders), every timestamp, every
  header codec, every packet handler and every packet size above 3, a call of
  \<^verbatim>\<open>h265_packetize\<close> on the whole buffer returns, with an error code and without a
  fault: the loop over the units goes on from a position that is further in the buffer
  each time, and the fragment loop, whose fragment length \<open>pktsize - 3\<close> is not 0,
  returns from every state.
\<close>

theorem h265_packetize_terminates:
  assumes "3 < pktsize" "whole_buffer m buf len"
  shows "(\<exists>err s'. h265_packetize m dec enc ts buf len pktsize pkth s = Some (Inr (err, s'))) \<and>
     (\<forall>fu b l e st. \<exists>res. fu_loop pkth ts (pktsize - 3) fu b l e st = Some res)"
proof
  show "\<exists>err s'. h265_packetize m dec enc ts buf len pktsize pkth s = Some (Inr (err, s'))"
  proof -
    have "\<exists>err' st'. h265_packetize m dec enc ts buf len pktsize pkth s = Some (Inr (err', st')) \<and>
        (\<lambda>_ _ _. True) (mem_end m) err' st'"
    proof (rule h265_packetize_rule [OF assms(2)])
      fix q r1 err st
      assume a: "sc_at m q" "q < mem_end m - 3" "next_sc m (q + 3) (mem_end m) r1"
      have "\<exists>x st'. packetize m dec enc (mem_end m \<le> r1) (q + 3) (word_of_int (r1 - (q + 3)))
          pktsize ts pkth st = Some (Inr (x, st')) \<and> (\<lambda>_ _. True) x st'"
        by (rule packetize_rule [where I = "\<lambda>_ _ _ _ _. True",
              OF assms(1) unit_of_sc(4) [OF assms(2) a]]) simp_all
      then show "\<exists>x st'. packetize m dec enc (mem_end m \<le> r1) (q + 3) (word_of_int (r1 - (q + 3)))
          pktsize ts pkth st = Some (Inr (x, st')) \<and> True"
        by simp
    qed simp
    then show ?thesis by simp
  qed
  show "\<forall>fu b l e st. \<exists>res. fu_loop pkth ts (pktsize - 3) fu b l e st = Some res"
  proof (intro allI)
    fix fu b l e st
    have "\<exists>fu' buf' len' err' st'.
        fu_loop pkth ts (pktsize - 3) fu b l e st = Some (fu', buf', len', err', st') \<and>
        (\<lambda>_ _ _ _ _. True) fu' buf' len' err' st' \<and> len' \<le> pktsize - 3"
      by (rule fu_loop_rule [OF flen_pos(1) [OF assms(1)]]) simp_all
    then show "\<exists>res. fu_loop pkth ts (pktsize - 3) fu b l e st = Some res" by blast
  qed
qed

theorem h265_packetize_terminates_witness:
  "(3 :: size_t) < 5 \<and>
   whole_buffer \<lparr>base = 0, bytes = [0, 0, 1, 0x26, 1, 0xAA, 0xBB, 0xCC, 0xDD], big_endian = False\<rparr>
     0 9 \<and>
   (\<exists>err s'. h265_packetize
       \<lparr>base = 0, bytes = [0, 0, 1, 0x26, 1, 0xAA, 0xBB, 0xCC, 0xDD], big_endian = False\<rparr>
       h265_nal_decode h265_nal_encode 90000 0 9 5 (\<lambda>pk s. (0, s)) () = Some (Inr (err, s')))"
proof -
  let ?m = "\<lparr>base = 0, bytes = [0, 0, 1, 0x26, 1, 0xAA, 0xBB, 0xCC, 0xDD], big_endian = False\<rparr>"
  have a: "(3 :: size_t) < 5" by simp
  have b: "whole_buffer ?m 0 9" by (simp add: whole_buffer_def)
  from h265_packetize_terminates [where dec = h265_nal_decode and enc = h265_nal_encode
      and ts = 90000 and pkth = "\<lambda>pk s. (0, s)" and s = "()", OF a b]
  have "\<exists>err s'. h265_packetize ?m h265_nal_decode h265_nal_encode 90000 0 9 5 (\<lambda>pk s. (0, s)) ()
      = Some (Inr (err, s'))"
    by (rule conjunct1)
  then show ?thesis using a b by blast
qed

text \<open>
  C10. For every call of \<^verbatim>\<open>h265_packetize\<close> on a whole buffer with a packet size above 3,
  whatever the codec and the handler do, every packet that is emitted fits the packet size:
  a packet without a fragmentation header carries at most \<open>pktsize\<close> payload bytes; a
  packet with one carries a header of 3 bytes and exactly \<open>pktsize - 3\<close> payload bytes
  when its End bit is clear (a fragment that is not the last) and between 1 and
  \<open>pktsize - 3\<close> when its End bit is set (the last fragment); so the header bytes and the
  payload bytes together are never more than \<open>pktsize\<close>.
\<close>

theorem packets_fit:
  assumes "3 < pktsize" "whole_buffer m buf len"
  shows "\<exists>err log s'.
     h265_packetize m dec enc ts buf len pktsize (recording f) ([], s) = Some (Inr (err, (log, s'))) \<and>
     (\<forall>(pk, c) \<in> set log.
        (case hdr pk of
           None \<Rightarrow> pld_len pk \<le> pktsize
         | Some h \<Rightarrow> length h = 3 \<and>
             (if fu_end h then 0 < pld_len pk \<and> pld_len pk \<le> pktsize - 3
              else pld_len pk = pktsize - 3)) \<and>
        hdr_len pk + unat (pld_len pk) \<le> unat pktsize)"
proof -
  define J where "J r err log \<longleftrightarrow> (\<forall>(pk, c) \<in> set log. size_ok pktsize pk)"
    for r :: ptr and err :: c_int and log :: "(packet \<times> c_int) list"
  have "\<exists>err log s'. h265_packetize m dec enc ts buf len pktsize (recording f) ([], s)
        = Some (Inr (err, (log, s'))) \<and> J (mem_end m) err log"
  proof (rule h265_packetize_recording_rule [OF assms])
    fix r show "J r 0 []" by (simp add: J_def)
  next
    fix q r1 err log x new
    assume "J q err log"
      "unit_out m dec (mem_end m \<le> r1) (q + 3) (word_of_int (r1 - (q + 3))) pktsize x new"
    then show "J r1 (err OR x) (log @ new)"
      unfolding J_def unit_out_def by auto
  qed
  then obtain err log s' where
    r: "h265_packetize m dec enc ts buf len pktsize (recording f) ([], s)
        = Some (Inr (err, (log, s')))"
    and j: "\<forall>(pk, c) \<in> set log. size_ok pktsize pk"
    unfolding J_def by blast
  have "\<forall>(pk, c) \<in> set log. size_ok pktsize pk \<and> hdr_len pk + unat (pld_len pk) \<le> unat pktsize"
    using j size_ok_fits [OF assms(1)] by auto
  then show ?thesis
    using r unfolding size_ok_def by blast
qed

theorem packets_fit_witness:
  "(3 :: size_t) < 5 \<and>
   whole_buffer \<lparr>base = 0, bytes = [0, 0, 1, 0x26, 1, 0xAA, 0xBB, 0xCC, 0xDD], big_endian = False\<rparr>
     0 9 \<and>
   (\<exists>err log s'. h265_packetize
       \<lparr>base = 0, bytes = [0, 0, 1, 0x26, 1, 0xAA, 0xBB, 0xCC, 0xDD], big_endian = False\<rparr>
       h265_nal_decode h265_nal_encode 90000 0 9 5 (recording (\<lambda>pk s. (0, s))) ([], ())
         = Some (Inr (err, (log, s'))) \<and>
      (\<forall>(pk, c) \<in> set log. hdr_len pk + unat (pld_len pk) \<le> unat (5 :: size_t)))"
proof -
  let ?m = "\<lparr>base = 0, bytes = [0, 0, 1, 0x26, 1, 0xAA, 0xBB, 0xCC, 0xDD], big_endian = False\<rparr>"
  have a: "(3 :: size_t) < 5" by simp
  have b: "whole_buffer ?m 0 9" by (simp add: whole_buffer_def)
  from packets_fit [where dec = h265_nal_decode and enc = h265_nal_encode and ts = 90000
      and f = "\<lambda>pk s. (0, s)" and s = "()", OF a b]
  obtain err log s' where
    "h265_packetize ?m h265_nal_decode h265_nal_encode 90000 0 9 5 (recording (\<lambda>pk s. (0, s)))
       ([], ()) = Some (Inr (err, (log, s')))"
    "\<forall>(pk, c) \<in> set log. hdr_len pk + unat (pld_len pk) \<le> unat (5 :: size_t)"
    by fast
  then show ?thesis using a b by blast
qed

text \<open>
  C6 (as stated, it fails). The claim reads: exactly the packets of the last unit carry the
  marker. When the last unit is split, only its last fragment does. The buffer
  \<open>00 00 01 26 01 AA BB CC DD\<close> holds one unit of 6 bytes; with packet size 5 it is sent as
  two fragments, and the first, a packet of the last unit, has no marker.
\<close>

theorem marker_fragment_counterexample:
  "h265_packetize
     \<lparr>base = 0, bytes = [0, 0, 1, 0x26, 1, 0xAA, 0xBB, 0xCC, 0xDD], big_endian = False\<rparr>
     h265_nal_decode h265_nal_encode 90000 0 9 5 (recording (\<lambda>pk s. (0, s))) ([], ())
   = Some (Inr (0,
       ([(\<lparr>marker = False, rtp_ts = 90000, hdr = Some [98, 1, 147], pld = 5, pld_len = 2\<rparr>, 0),
         (\<lparr>marker = True, rtp_ts = 90000, hdr = Some [98, 1, 83], pld = 7, pld_len = 2\<rparr>, 0)],
        ())))"
  by code_simp


text \<open>
  C6 (amended). Across one call of \<^verbatim>\<open>h265_packetize\<close> on a whole buffer, with a packet size
  above 3: a packet carries the marker exactly when its payload ends at the end of the
  buffer, so only a packet of the last unit can carry it, and of these only the one that
  ends the unit: its single packet, or its last fragment when the unit is split. Every
  packet but the last one emitted has marker = false. A buffer with a start code that has
  a byte after it has a last unit, the unit that ends at the end of the buffer. Whenever
  the last unit is not one whose header fails to decode, some packet is emitted and the
  last packet emitted has marker = true; when the header of the last unit fails to decode,
  no packet at all has the marker.
\<close>

theorem marker_on_last_packet:
  assumes "3 < pktsize" "whole_buffer m buf len"
  shows "\<exists>err log s'.
     h265_packetize m dec enc ts buf len pktsize (recording f) ([], s) = Some (Inr (err, (log, s'))) \<and>
     (\<forall>(pk, c) \<in> set log. marker pk \<longleftrightarrow> pld_end pk = mem_end m) \<and>
     (\<forall>(pk, c) \<in> set (butlast log). \<not> marker pk) \<and>
     ((\<exists>q \<in> {base m ..< mem_end m - 3}. sc_at m q) \<longrightarrow> (\<exists>u. nal_unit m u (mem_end m))) \<and>
     (\<forall>u. nal_unit m u (mem_end m) \<longrightarrow>
        (if decode_fails m dec u (word_of_int (mem_end m - u)) pktsize
         then \<forall>(pk, c) \<in> set log. \<not> marker pk
         else log \<noteq> [] \<and> marker (fst (last log))))"
proof -
  define e where "e = mem_end m"
  define Qf where "Qf log \<longleftrightarrow>
      (\<forall>(pk, c) \<in> set log. marker pk \<longleftrightarrow> pld_end pk = e) \<and>
      (\<forall>(pk, c) \<in> set (butlast log). \<not> marker pk) \<and>
      ((\<exists>q \<in> {base m ..< e - 3}. sc_at m q) \<longrightarrow> (\<exists>u. nal_unit m u e)) \<and>
      (\<forall>u. nal_unit m u e \<longrightarrow>
         (if decode_fails m dec u (word_of_int (e - u)) pktsize
          then \<forall>(pk, c) \<in> set log. \<not> marker pk
          else log \<noteq> [] \<and> marker (fst (last log))))"
    for log :: "(packet \<times> c_int) list"
  define J where "J r err log \<longleftrightarrow>
      (if r = e then Qf log else \<forall>(pk, c) \<in> set log. \<not> marker pk \<and> pld_end pk < e)"
    for r :: ptr and err :: c_int and log :: "(packet \<times> c_int) list"
  have "\<exists>err log s'. h265_packetize m dec enc ts buf len pktsize (recording f) ([], s)
        = Some (Inr (err, (log, s'))) \<and> J (mem_end m) err log"
  proof (rule h265_packetize_recording_rule [OF assms])
    fix r assume nx: "next_sc m (base m) (mem_end m) r"
    then have 1: "r = e \<Longrightarrow> \<not> (\<exists>q \<in> {base m ..< e - 3}. sc_at m q)"
      by (auto simp: next_sc_def no_sc_def e_def)
    have 2: "\<not> nal_unit m u e" if "r = e" for u
      using nal_unit_after_first [OF _ nx, of u e] that by (auto simp: e_def)
    show "J r 0 []" using 1 2 by (auto simp: J_def Qf_def)
  next
    fix q r1 err log x new
    assume sc: "sc_at m q" and q: "q < mem_end m - 3" and j: "J q err log"
      and n: "next_sc m (q + 3) (mem_end m) r1"
      and u: "unit_out m dec (mem_end m \<le> r1) (q + 3) (word_of_int (r1 - (q + 3))) pktsize x new"
    note un = unit_of_sc [OF assms(2) sc q n]
    have old: "\<forall>(pk, c) \<in> set log. \<not> marker pk \<and> pld_end pk < e"
      using j q by (simp add: J_def e_def)
    have all: "\<forall>(pk, c) \<in> set new. pld_end pk \<le> r1 \<and> (marker pk \<longrightarrow> e \<le> r1)"
      and bl: "\<forall>(pk, c) \<in> set (butlast new). \<not> marker pk \<and> pld_end pk < r1"
      and lst: "\<not> decode_fails m dec (q + 3) (word_of_int (r1 - (q + 3))) pktsize \<Longrightarrow>
          new \<noteq> [] \<and> marker (fst (last new)) = (e \<le> r1) \<and> pld_end (fst (last new)) = r1"
      and fl: "decode_fails m dec (q + 3) (word_of_int (r1 - (q + 3))) pktsize \<Longrightarrow> new = []"
      using u unfolding unit_out_def un(3) e_def by (auto split: if_splits)
    show "J r1 (err OR x) (log @ new)"
    proof (cases "r1 = e")
      case False
      then have "r1 < e" using un(2) by (simp add: e_def)
      then have "\<forall>(pk, c) \<in> set new. \<not> marker pk \<and> pld_end pk < e"
        using all by fastforce
      then show ?thesis using old False by (auto simp: J_def)
    next
      case True
      have 1: "\<forall>(pk, c) \<in> set new. marker pk \<longleftrightarrow> pld_end pk = e"
      proof (cases "new = []")
        case False
        then have nf: "\<not> decode_fails m dec (q + 3) (word_of_int (r1 - (q + 3))) pktsize"
          using fl by blast
        have "set new = set (butlast new) \<union> {last new}"
          using False by (metis append_butlast_last_id list.simps(15) set_append Un_insert_right
              sup_bot.right_neutral empty_set)
        moreover have "marker (fst (last new)) \<longleftrightarrow> pld_end (fst (last new)) = e"
          using lst [OF nf] True by simp
        moreover have "\<forall>(pk, c) \<in> set (butlast new). marker pk \<longleftrightarrow> pld_end pk = e"
          using bl True by auto
        ultimately show ?thesis by (auto simp: case_prod_beta)
      qed simp
      have 2: "\<forall>(pk, c) \<in> set (butlast (log @ new)). \<not> marker pk"
      proof (cases "new = []")
        case True
        then show ?thesis using old by (auto dest: in_set_butlastD)
      next
        case False
        then show ?thesis using old bl by (auto simp: butlast_append)
      qed
      have "q + 3 < mem_end m" using q by simp
      then have lu: "nal_unit m (q + 3) e"
        using sc n unfolding True [symmetric] by (simp add: nal_unit_def e_def)
      then have 3: "\<exists>u. nal_unit m u e" by blast
      have only: "v = q + 3" if "nal_unit m v e" for v
      proof -
        have "e \<le> r1" using True by simp
        from nal_unit_cases [OF that this sc q n] show ?thesis using q by (simp add: e_def)
      qed
      have 4: "if decode_fails m dec (q + 3) (word_of_int (e - (q + 3))) pktsize
          then \<forall>(pk, c) \<in> set (log @ new). \<not> marker pk
          else log @ new \<noteq> [] \<and> marker (fst (last (log @ new)))"
      proof (cases "decode_fails m dec (q + 3) (word_of_int (e - (q + 3))) pktsize")
        case df: True
        then have "new = []" using fl unfolding True by simp
        then show ?thesis using df old by auto
      next
        case df: False
        from lst [unfolded True, OF df] show ?thesis using df by simp
      qed
      have "\<forall>(pk, c) \<in> set (log @ new). marker pk \<longleftrightarrow> pld_end pk = e"
        using old 1 by auto
      then have "Qf (log @ new)" unfolding Qf_def
      proof (intro conjI allI impI)
        show "\<forall>(pk, c) \<in> set (butlast (log @ new)). \<not> marker pk" by (rule 2)
        show "\<exists>u. nal_unit m u e" by (rule 3)
      next
        fix v assume "nal_unit m v e"
        then have "v = q + 3" by (rule only)
        then show "if decode_fails m dec v (word_of_int (e - v)) pktsize
            then \<forall>(pk, c) \<in> set (log @ new). \<not> marker pk
            else log @ new \<noteq> [] \<and> marker (fst (last (log @ new)))"
          using 4 by simp
      qed
      then show ?thesis using True by (simp add: J_def)
    qed
  qed
  then show ?thesis unfolding J_def Qf_def e_def by simp
qed

theorem marker_on_last_packet_witness:
  "(3 :: size_t) < 5 \<and>
   whole_buffer \<lparr>base = 0, bytes = [0, 0, 1, 0x40, 1, 0x0C, 0, 0, 1, 0x26, 1, 0xAA, 0xBB, 0xCC, 0xDD],
                  big_endian = False\<rparr> 0 15 \<and>
   nal_unit \<lparr>base = 0, bytes = [0, 0, 1, 0x40, 1, 0x0C, 0, 0, 1, 0x26, 1, 0xAA, 0xBB, 0xCC, 0xDD],
              big_endian = False\<rparr> 9 15 \<and>
   \<not> decode_fails \<lparr>base = 0, bytes = [0, 0, 1, 0x40, 1, 0x0C, 0, 0, 1, 0x26, 1, 0xAA, 0xBB, 0xCC, 0xDD],
                    big_endian = False\<rparr>
       (\<lambda>b0 b1. (if b0 = 0x40 then 74 else 0, \<lparr>nal_unit_type = 19, nuh_temporal_id_plus1 = 1\<rparr>))
       9 (word_of_int (15 - 9)) 5 \<and>
   (\<exists>err log s'. h265_packetize
       \<lparr>base = 0, bytes = [0, 0, 1, 0x40, 1, 0x0C, 0, 0, 1, 0x26, 1, 0xAA, 0xBB, 0xCC, 0xDD],
         big_endian = False\<rparr>
       (\<lambda>b0 b1. (if b0 = 0x40 then 74 else 0, \<lparr>nal_unit_type = 19, nuh_temporal_id_plus1 = 1\<rparr>))
       h265_nal_encode 90000 0 15 5 (recording (\<lambda>pk s. (0, s))) ([], ())
         = Some (Inr (err, (log, s'))) \<and>
      log \<noteq> [] \<and> marker (fst (last log)) \<and> (\<forall>(pk, c) \<in> set (butlast log). \<not> marker pk))"
proof -
  let ?m = "\<lparr>base = 0, bytes = [0, 0, 1, 0x40, 1, 0x0C, 0, 0, 1, 0x26, 1, 0xAA, 0xBB, 0xCC, 0xDD],
      big_endian = False\<rparr>"
  let ?dec = "\<lambda>b0 b1 :: byte. (if b0 = 0x40 then 74 :: c_int else 0,
      \<lparr>nal_unit_type = 19, nuh_temporal_id_plus1 = 1\<rparr>)"
  have a: "(3 :: size_t) < 5" by simp
  have b: "whole_buffer ?m 0 15" by (simp add: whole_buffer_def)
  have e: "mem_end ?m = 15" by (simp add: mem_end_def)
  have sc: "sc_at ?m 6" by code_simp
  have ns: "\<not> sc_at ?m 9" "\<not> sc_at ?m 10" "\<not> sc_at ?m 11" by code_simp+
  have "{9 ..< 12 :: int} = {9, 10, 11}" by auto
  then have "no_sc ?m 9 12" using ns by (simp add: no_sc_def)
  then have u: "nal_unit ?m 9 (mem_end ?m)"
    using sc by (simp add: nal_unit_def next_sc_def e)
  have pk: "peek ?m 9 = 0x26" by (simp add: peek_def)
  have d: "\<not> decode_fails ?m ?dec 9 (word_of_int (mem_end ?m - 9)) 5"
    by (simp add: decode_fails_def pk)
  from marker_on_last_packet [where dec = ?dec and enc = h265_nal_encode
      and ts = 90000 and f = "\<lambda>pk s. (0, s)" and s = "()", OF a b]
  obtain err log s' where
    r: "h265_packetize ?m ?dec h265_nal_encode 90000 0 15 5 (recording (\<lambda>pk s. (0, s)))
       ([], ()) = Some (Inr (err, (log, s')))"
    and bl: "\<forall>(pk, c) \<in> set (butlast log). \<not> marker pk"
    and w: "\<forall>u. nal_unit ?m u (mem_end ?m) \<longrightarrow>
        (if decode_fails ?m ?dec u (word_of_int (mem_end ?m - u)) 5
         then \<forall>(pk, c) \<in> set log. \<not> marker pk
         else log \<noteq> [] \<and> marker (fst (last log)))"
    by blast
  from w [rule_format, OF u] d have "log \<noteq> []" "marker (fst (last log))" by simp_all
  then have "\<exists>err log s'. h265_packetize ?m ?dec h265_nal_encode 90000 0 15 5
        (recording (\<lambda>pk s. (0, s))) ([], ()) = Some (Inr (err, (log, s'))) \<and>
      log \<noteq> [] \<and> marker (fst (last log)) \<and> (\<forall>(pk, c) \<in> set (butlast log). \<not> marker pk)"
    using r bl by blast
  then show ?thesis using a b u d unfolding e by blast
qed

text \<open>
  C3. For every unit that lies in the buffer and is longer than the packet size, the
  packet size being above 3, and whose header the codec decodes: \<^verbatim>\<open>packetize\<close> emits
  packets that all carry a fragmentation header of 3 bytes, and their payloads, put
  together in the order of emission, are exactly the bytes of the unit after its first two
  bytes.
\<close>

theorem fragments_reassemble:
  assumes ml: "3 < maxlen" and big: "maxlen < len" and ui: "unit_in m buf len"
    and ok: "fst (dec (peek m buf) (peek m (buf + 1))) = 0"
  shows "\<exists>x new s'.
     packetize m dec enc mk buf len maxlen ts (recording f) (log, s)
       = Some (Inr (x, (log @ new, s'))) \<and>
     (\<forall>(pk, c) \<in> set new. hdr_len pk = 3) \<and>
     concat (map (\<lambda>(pk, c). pld_bytes m pk) new) = drop 2 (mem_slice m buf (unat len))"
proof -
  have nle: "\<not> len \<le> maxlen" using big by (simp add: not_le)
  have b0: "base m \<le> buf" using ui by (simp add: unit_in_def)
  define good where "good frs \<longleftrightarrow> (\<forall>(pk, c) \<in> set frs. hdr_len pk = 3)"
    for frs :: "(packet \<times> c_int) list"
  define cat where "cat frs = concat (map (\<lambda>(pk, c). pld_bytes m pk) frs)"
    for frs :: "(packet \<times> c_int) list"
  define Q where "Q x st \<longleftrightarrow> (\<exists>new s'. st = (log @ new, s') \<and> good new \<and>
      cat new = drop 2 (mem_slice m buf (unat len)))"
    for x :: c_int and st :: "(packet \<times> c_int) list \<times> 'a"
  define I where "I fu b l err st \<longleftrightarrow> (\<exists>frs s'. st = (log @ frs, s') \<and> good frs \<and> length fu = 3 \<and>
      buf + 2 \<le> b \<and> b + uint l = buf + uint len \<and>
      cat frs = mem_slice m (buf + 2) (nat (b - (buf + 2))))"
    for fu :: "byte list" and b :: ptr and l :: size_t and err :: c_int
      and st :: "(packet \<times> c_int) list \<times> 'a"
  have cat_snoc: "cat (frs @ [(pk, c)]) = cat frs @ mem_slice m (pld pk) (unat (pld_len pk))"
    for frs pk c by (simp add: cat_def pld_bytes_def)
  have good_snoc: "good (frs @ [(pk, c)]) \<longleftrightarrow> good frs \<and> hdr_len pk = 3"
    for frs pk c by (auto simp: good_def)
  have "\<exists>x st'. packetize m dec enc mk buf len maxlen ts (recording f) (log, s)
      = Some (Inr (x, st')) \<and> Q x st'"
  proof (rule packetize_rule [where I = I, OF ml ui])
    fix e st' assume "len \<le> maxlen"
    then show "Q e st'" using nle by simp
  next
    fix d nal
    assume "dec (peek m buf) (peek m (buf + 1)) = (d, nal)" "d \<noteq> 0"
    then show "Q d (log, s)" using ok by simp
  next
    fix nal h0 h1
    have "(log, s) = (log @ [], s) \<and> good [] \<and> length [h0, h1, fu_byte (nal_unit_type nal)] = 3 \<and>
        buf + 2 \<le> buf + 2 \<and> buf + 2 + uint (len - 2) = buf + uint len \<and>
        cat [] = mem_slice m (buf + 2) (nat (buf + 2 - (buf + 2)))"
      using unit_len_minus_2(1) [OF ml nle] by (simp add: good_def cat_def mem_slice_def)
    then show "I [h0, h1, fu_byte (nal_unit_type nal)] (buf + 2) (len - 2) 0 (log, s)"
      unfolding I_def by blast
  next
    fix fu b l err st e st'
    assume i: "I fu b l err st" and lt: "maxlen - 3 < l" and c:
      "recording f \<lparr>marker = False, rtp_ts = ts, hdr = Some fu, pld = b, pld_len = maxlen - 3\<rparr> st
         = (e, st')"
    let ?pk = "\<lparr>marker = False, rtp_ts = ts, hdr = Some fu, pld = b, pld_len = maxlen - 3\<rparr>"
    from i obtain frs s1 where st: "st = (log @ frs, s1)" and g: "good frs" "length fu = 3"
      and b: "buf + 2 \<le> b" "b + uint l = buf + uint len"
      and ct: "cat frs = mem_slice m (buf + 2) (nat (b - (buf + 2)))"
      unfolding I_def by blast
    from c obtain s2 where st': "st' = (log @ (frs @ [(?pk, e)]), s2)"
      unfolding st recording_call by auto
    have b': "b = buf + 2 + int (nat (b - (buf + 2)))" using b(1) by simp
    have "cat (frs @ [(?pk, e)]) =
        mem_slice m (buf + 2) (nat (b - (buf + 2))) @ mem_slice m b (unat (maxlen - 3))"
      by (simp add: cat_snoc ct)
    also have "\<dots> = mem_slice m (buf + 2) (nat (b - (buf + 2)) + unat (maxlen - 3))"
      using mem_slice_append [of m "buf + 2" "nat (b - (buf + 2))" "unat (maxlen - 3)"] b0 b'
      by simp
    also have "nat (b - (buf + 2)) + unat (maxlen - 3) = nat (b + uint (maxlen - 3) - (buf + 2))"
      using nat_plus_unat [of "b - (buf + 2)" "maxlen - 3"] b(1) by (simp add: algebra_simps)
    finally have 1: "cat (frs @ [(?pk, e)]) =
        mem_slice m (buf + 2) (nat (b + uint (maxlen - 3) - (buf + 2)))" .
    have 2: "good (frs @ [(?pk, e)])" using g by (simp add: good_snoc hdr_len_def)
    have 3: "length (fu[2 := clear_start (fu ! 2)]) = 3" using g(2) by simp
    have 4: "buf + 2 \<le> b + uint (maxlen - 3)" using b(1) uint_ge_0 [of "maxlen - 3"] by linarith
    have 5: "b + uint (maxlen - 3) + uint (l - (maxlen - 3)) = buf + uint len"
      using word_sub_less(1) [OF lt] b(2) by simp
    show "I (fu[2 := clear_start (fu ! 2)]) (b + uint (maxlen - 3)) (l - (maxlen - 3))
        (err OR e) st'"
      unfolding I_def using st' 1 2 3 4 5 by blast
  next
    fix fu b l err st e st'
    assume i: "I fu b l err st" and c:
      "recording f \<lparr>marker = mk, rtp_ts = ts, hdr = Some (fu[2 := set_end (fu ! 2)]), pld = b,
          pld_len = l\<rparr> st = (e, st')"
    let ?pk = "\<lparr>marker = mk, rtp_ts = ts, hdr = Some (fu[2 := set_end (fu ! 2)]), pld = b,
          pld_len = l\<rparr>"
    from i obtain frs s1 where st: "st = (log @ frs, s1)" and g: "good frs" "length fu = 3"
      and b: "buf + 2 \<le> b" "b + uint l = buf + uint len"
      and ct: "cat frs = mem_slice m (buf + 2) (nat (b - (buf + 2)))"
      unfolding I_def by blast
    from c obtain s2 where st': "st' = (log @ (frs @ [(?pk, e)]), s2)"
      unfolding st recording_call by auto
    have b': "b = buf + 2 + int (nat (b - (buf + 2)))" using b(1) by simp
    have "cat (frs @ [(?pk, e)]) =
        mem_slice m (buf + 2) (nat (b - (buf + 2))) @ mem_slice m b (unat l)"
      by (simp add: cat_snoc ct)
    also have "\<dots> = mem_slice m (buf + 2) (nat (b - (buf + 2)) + unat l)"
      using mem_slice_append [of m "buf + 2" "nat (b - (buf + 2))" "unat l"] b0 b'
      by simp
    also have "nat (b - (buf + 2)) + unat l = unat len - 2"
    proof -
      have "nat (b - (buf + 2)) + unat l = nat (b - (buf + 2) + uint l)"
        using nat_plus_unat [of "b - (buf + 2)" l] b(1) by simp
      also have "b - (buf + 2) + uint l = uint len - 2" using b(2) by simp
      also have "nat (uint len - 2) = unat len - 2" by (simp add: nat_diff_distrib')
      finally show ?thesis .
    qed
    also have "mem_slice m (buf + 2) (unat len - 2) = drop 2 (mem_slice m buf (unat len))"
      using mem_slice_drop [OF b0, of 2 "unat len"] by simp
    finally have 1: "cat (frs @ [(?pk, e)]) = drop 2 (mem_slice m buf (unat len))" .
    have 2: "good (frs @ [(?pk, e)])" using g by (simp add: good_snoc hdr_len_def)
    show "Q (err OR e) st'"
      unfolding Q_def using st' 1 2 by blast
  qed
  then show ?thesis unfolding Q_def good_def cat_def by blast
qed


theorem fragments_reassemble_witness:
  "(3 :: size_t) < 5 \<and> (5 :: size_t) < 6 \<and>
   unit_in \<lparr>base = 0, bytes = [0, 0, 1, 0x26, 1, 0xAA, 0xBB, 0xCC, 0xDD], big_endian = False\<rparr> 3 6 \<and>
   (\<exists>x new s'. packetize
       \<lparr>base = 0, bytes = [0, 0, 1, 0x26, 1, 0xAA, 0xBB, 0xCC, 0xDD], big_endian = False\<rparr>
       h265_nal_decode h265_nal_encode True 3 6 5 90000 (recording (\<lambda>pk s. (0, s))) ([], ())
         = Some (Inr (x, (new, s'))) \<and>
      concat (map (\<lambda>(pk, c). pld_bytes
        \<lparr>base = 0, bytes = [0, 0, 1, 0x26, 1, 0xAA, 0xBB, 0xCC, 0xDD], big_endian = False\<rparr> pk) new)
        = [0xAA, 0xBB, 0xCC, 0xDD])"
proof -
  let ?m = "\<lparr>base = 0, bytes = [0, 0, 1, 0x26, 1, 0xAA, 0xBB, 0xCC, 0xDD], big_endian = False\<rparr>"
  have a: "(3 :: size_t) < 5" "(5 :: size_t) < 6" by simp_all
  have u: "unit_in ?m 3 6" by (simp add: unit_in_def mem_end_def)
  have d: "fst (h265_nal_decode (peek ?m 3) (peek ?m (3 + 1))) = 0"
    by (simp add: h265_nal_decode_def)
  have sl: "drop 2 (mem_slice ?m 3 (unat (6 :: size_t))) = [0xAA, 0xBB, 0xCC, 0xDD]"
    by (simp add: mem_slice_def)
  from fragments_reassemble [where dec = h265_nal_decode and enc = h265_nal_encode and mk = True and ts = 90000
      and f = "\<lambda>pk s. (0, s)" and log = "[]" and s = "()", OF a u d]
  obtain x new s' where
    "packetize ?m h265_nal_decode h265_nal_encode True 3 6 5 90000 (recording (\<lambda>pk s. (0, s)))
       ([], ()) = Some (Inr (x, (new, s')))"
    "concat (map (\<lambda>(pk, c). pld_bytes ?m pk) new) = drop 2 (mem_slice ?m 3 (unat (6 :: size_t)))"
    by auto
  then show ?thesis using a u unfolding sl by blast
qed




text \<open>
  C4 (as stated, it fails). The claim counts four packets. A packet of 1000 bytes has room
  for 997 payload bytes after the fragmentation header, and four times 997 is less than
  4000: the unit with header \<open>26 01\<close> and 4000 payload bytes \<open>AA\<close> is sent in five
  packets.
\<close>

theorem unit_4000_counterexample:
  "h265_packetize (unit_buffer 0 False 0x26 0x01 (replicate 4000 0xAA))
     h265_nal_decode h265_nal_encode 90000 0 4006 1000 (recording (\<lambda>pk s. (0, s))) ([], ())
   = Some (Inr (0,
       ([(\<lparr>marker = False, rtp_ts = 90000, hdr = Some [98, 1, 147], pld = 6, pld_len = 997\<rparr>, 0),
         (\<lparr>marker = False, rtp_ts = 90000, hdr = Some [98, 1, 19], pld = 1003, pld_len = 997\<rparr>, 0),
         (\<lparr>marker = False, rtp_ts = 90000, hdr = Some [98, 1, 19], pld = 2000, pld_len = 997\<rparr>, 0),
         (\<lparr>marker = False, rtp_ts = 90000, hdr = Some [98, 1, 19], pld = 2997, pld_len = 997\<rparr>, 0),
         (\<lparr>marker = True, rtp_ts = 90000, hdr = Some [98, 1, 83], pld = 3994, pld_len = 12\<rparr>, 0)],
        ())))"
proof -
  let ?nal = "\<lparr>nal_unit_type = 19, nuh_temporal_id_plus1 = 1\<rparr>"
  have len: "length (replicate 4000 (0xAA :: byte)) = 4000" by simp
  have single: "no_sc (unit_buffer 0 False 0x26 0x01 (replicate 4000 0xAA)) (0 + 4)
      (mem_end (unit_buffer 0 False 0x26 0x01 (replicate 4000 0xAA)))"
    by (rule unit_buffer_no_sc) simp_all
  have d: "h265_nal_decode 0x26 0x01 = (0, ?nal)" by code_simp
  have en: "h265_nal_encode H265_NAL_FU (ucast (nuh_temporal_id_plus1 ?nal)) = (98, 1)"
    by code_simp
  have x: "147 = fu_byte (nal_unit_type ?nal)" by code_simp
  have b: "clear_start 147 = 19" "clear_start 19 = 19" "set_end 19 = 83" by code_simp+
  have c: "(\<lambda>pk s. (0 :: c_int, s)) pk () = (0, ())" for pk :: packet by simp
  show ?thesis
    using unit_buffer_call [where f = "\<lambda>pk s. (0, s)" and dec = h265_nal_decode
        and enc = h265_nal_encode and ts = 90000 and s = "()", OF len single d en x c c c c c]
    by (simp add: b)
qed

text \<open>
  C4 (amended). A buffer, at any address and in either byte order, that holds a 4-byte
  start code, a 2-byte header that the codec decodes and 4000 payload bytes, with no start
  code in the unit, and packet size 1000: each fragment carries 3 header bytes and at most
  997 payload bytes, so \<^verbatim>\<open>h265_packetize\<close> emits five packets, not four. Four fragments
  carry 997 payload bytes and the last carries 12. The first has Start = 1 and End = 0,
  the three in the middle have Start = 0 and End = 0, the last has Start = 0, End = 1 and
  marker = true; the others have marker = false. All five headers begin with the same two
  bytes (the fragmentation-unit type and the temporal id of the unit, as the encoder writes
  them) and carry the type of the unit in their third byte.
\<close>

theorem unit_4000_five_packets:
  fixes f :: "'s videnc_packet_h"
  assumes "length pl = 4000"
    and "no_sc (unit_buffer b be h0 h1 pl) (b + 4) (mem_end (unit_buffer b be h0 h1 pl))"
    and "dec h0 h1 = (0, nal)"
    and "enc H265_NAL_FU (ucast (nuh_temporal_id_plus1 nal)) = (e0, e1)"
  shows "\<exists>err log s'.
     h265_packetize (unit_buffer b be h0 h1 pl) dec enc ts b 4006 1000 (recording f) ([], s)
       = Some (Inr (err, (log, s'))) \<and>
     map (\<lambda>(pk, c). marker pk) log = [False, False, False, False, True] \<and>
     map (\<lambda>(pk, c). pld pk) log = [b + 6, b + 1003, b + 2000, b + 2997, b + 3994] \<and>
     map (\<lambda>(pk, c). pld_len pk) log = [997, 997, 997, 997, 12] \<and>
     (\<exists>hs. map (\<lambda>(pk, c). hdr pk) log = map Some hs \<and>
        map fu_start hs = [True, False, False, False, False] \<and>
        map fu_end hs = [False, False, False, False, True] \<and>
        (\<forall>h \<in> set hs. length h = 3 \<and> h ! 0 = e0 \<and> h ! 1 = e1 \<and>
           fu_type h = ucast (nal_unit_type nal)))"
proof -
  define x where "x = fu_byte (nal_unit_type nal)"
  let ?h1 = "[e0, e1, x]"
  let ?h2 = "[e0, e1, clear_start x]"
  let ?h3 = "[e0, e1, clear_start (clear_start x)]"
  let ?h4 = "[e0, e1, clear_start (clear_start (clear_start x))]"
  let ?h5 = "[e0, e1, set_end (clear_start (clear_start (clear_start (clear_start x))))]"
  obtain c1 s1 where c1:
    "f \<lparr>marker = False, rtp_ts = ts, hdr = Some ?h1, pld = b + 6, pld_len = 997\<rparr> s = (c1, s1)"
    by fastforce
  obtain c2 s2 where c2:
    "f \<lparr>marker = False, rtp_ts = ts, hdr = Some ?h2, pld = b + 1003, pld_len = 997\<rparr> s1 = (c2, s2)"
    by fastforce
  obtain c3 s3 where c3:
    "f \<lparr>marker = False, rtp_ts = ts, hdr = Some ?h3, pld = b + 2000, pld_len = 997\<rparr> s2 = (c3, s3)"
    by fastforce
  obtain c4 s4 where c4:
    "f \<lparr>marker = False, rtp_ts = ts, hdr = Some ?h4, pld = b + 2997, pld_len = 997\<rparr> s3 = (c4, s4)"
    by fastforce
  obtain c5 s5 where c5:
    "f \<lparr>marker = True, rtp_ts = ts, hdr = Some ?h5, pld = b + 3994, pld_len = 12\<rparr> s4 = (c5, s5)"
    by fastforce
  note r = unit_buffer_call [where f = f and dec = dec and enc = enc,
      OF assms x_def c1 c2 c3 c4 c5]
  have hs: "map fu_start [?h1, ?h2, ?h3, ?h4, ?h5] = [True, False, False, False, False]"
    "map fu_end [?h1, ?h2, ?h3, ?h4, ?h5] = [False, False, False, False, True]"
    "\<forall>h \<in> set [?h1, ?h2, ?h3, ?h4, ?h5]. length h = 3 \<and> h ! 0 = e0 \<and> h ! 1 = e1 \<and>
       fu_type h = ucast (nal_unit_type nal)"
    by (simp_all add: x_def fu_bits_simps)
  let ?log = "[(\<lparr>marker = False, rtp_ts = ts, hdr = Some ?h1, pld = b + 6, pld_len = 997\<rparr>, c1),
      (\<lparr>marker = False, rtp_ts = ts, hdr = Some ?h2, pld = b + 1003, pld_len = 997\<rparr>, c2),
      (\<lparr>marker = False, rtp_ts = ts, hdr = Some ?h3, pld = b + 2000, pld_len = 997\<rparr>, c3),
      (\<lparr>marker = False, rtp_ts = ts, hdr = Some ?h4, pld = b + 2997, pld_len = 997\<rparr>, c4),
      (\<lparr>marker = True, rtp_ts = ts, hdr = Some ?h5, pld = b + 3994, pld_len = 12\<rparr>, c5)]"
  have h: "\<exists>hs. map (\<lambda>(pk, c). hdr pk) ?log = map Some hs \<and>
        map fu_start hs = [True, False, False, False, False] \<and>
        map fu_end hs = [False, False, False, False, True] \<and>
        (\<forall>h \<in> set hs. length h = 3 \<and> h ! 0 = e0 \<and> h ! 1 = e1 \<and>
           fu_type h = ucast (nal_unit_type nal))"
  proof (intro exI conjI)
    show "map (\<lambda>(pk, c). hdr pk) ?log = map Some [?h1, ?h2, ?h3, ?h4, ?h5]" by simp
    show "map fu_start [?h1, ?h2, ?h3, ?h4, ?h5] = [True, False, False, False, False]"
      by (rule hs(1))
    show "map fu_end [?h1, ?h2, ?h3, ?h4, ?h5] = [False, False, False, False, True]"
      by (rule hs(2))
    show "\<forall>h \<in> set [?h1, ?h2, ?h3, ?h4, ?h5]. length h = 3 \<and> h ! 0 = e0 \<and> h ! 1 = e1 \<and>
       fu_type h = ucast (nal_unit_type nal)"
      by (rule hs(3))
  qed
  have m: "map (\<lambda>(pk, c). marker pk) ?log = [False, False, False, False, True]"
    "map (\<lambda>(pk, c). pld pk) ?log = [b + 6, b + 1003, b + 2000, b + 2997, b + 3994]"
    "map (\<lambda>(pk, c). pld_len pk) ?log = [997, 997, 997, 997, 12]"
    by simp_all
  show ?thesis
    unfolding r using h by (simp add: m)
qed


theorem unit_4000_five_packets_witness:
  "length (replicate 4000 (0xAA :: byte)) = 4000 \<and>
   no_sc (unit_buffer 0 False 0x26 0x01 (replicate 4000 0xAA)) (0 + 4)
     (mem_end (unit_buffer 0 False 0x26 0x01 (replicate 4000 0xAA))) \<and>
   h265_nal_decode 0x26 0x01 = (0, \<lparr>nal_unit_type = 19, nuh_temporal_id_plus1 = 1\<rparr>) \<and>
   h265_nal_encode H265_NAL_FU (ucast (1 :: 3 word)) = (98, 1) \<and>
   (\<exists>err log s'. h265_packetize (unit_buffer 0 False 0x26 0x01 (replicate 4000 0xAA))
       h265_nal_decode h265_nal_encode 90000 0 4006 1000 (recording (\<lambda>pk s. (0, s))) ([], ())
         = Some (Inr (err, (log, s'))) \<and>
      map (\<lambda>(pk, c). marker pk) log = [False, False, False, False, True] \<and>
      map (\<lambda>(pk, c). pld_len pk) log = [997, 997, 997, 997, 12])"
proof -
  let ?nal = "\<lparr>nal_unit_type = 19, nuh_temporal_id_plus1 = 1\<rparr>"
  have len: "length (replicate 4000 (0xAA :: byte)) = 4000" by simp
  have single: "no_sc (unit_buffer 0 False 0x26 0x01 (replicate 4000 0xAA)) (0 + 4)
      (mem_end (unit_buffer 0 False 0x26 0x01 (replicate 4000 0xAA)))"
    by (rule unit_buffer_no_sc) simp_all
  have d: "h265_nal_decode 0x26 0x01 = (0, ?nal)" by code_simp
  have en: "h265_nal_encode H265_NAL_FU (ucast (nuh_temporal_id_plus1 ?nal)) = (98, 1)"
    by code_simp
  from unit_4000_five_packets [where f = "\<lambda>pk s. (0, s)" and dec = h265_nal_decode
      and enc = h265_nal_encode and ts = 90000 and s = "()", OF len single d en]
  obtain err log s' where
    "h265_packetize (unit_buffer 0 False 0x26 0x01 (replicate 4000 0xAA))
       h265_nal_decode h265_nal_encode 90000 0 4006 1000 (recording (\<lambda>pk s. (0, s))) ([], ())
         = Some (Inr (err, (log, s')))"
    "map (\<lambda>(pk, c). marker pk) log = [False, False, False, False, True]"
    "map (\<lambda>(pk, c). pld_len pk) log = [997, 997, 997, 997, 12]"
    by auto
  then show ?thesis using len single d en by auto
qed




end
